theory Spec2Isabelle
  imports Main
begin

section \<open>Values, property tables and the store\<close>

text \<open>
  The repository ships the same mechanism twice: \<^verbatim>\<open>src/as-mutable.ts\<close> (entry
  function \<^verbatim>\<open>asMutable\<close>) and \<^verbatim>\<open>src/im-mutable.ts\<close> (entry function
  \<^verbatim>\<open>mutable\<close>). The two files differ in the Worker's constructor, in \<^verbatim>\<open>has\<close>,
  \<^verbatim>\<open>ownKeys\<close>, \<^verbatim>\<open>get\<close> and in one line of \<^verbatim>\<open>getValue\<close>; every function
  below that differs takes the variant as its first argument.
\<close>

datatype variant = AsMutable | ImMutable

type_synonym addr = nat

text \<open>
  Property keys: canonical array indices, other strings, and symbols. The
  module-private symbol \<^verbatim>\<open>MUTABLE\<close> is not a value of this type: no caller
  can name it, and the \<^verbatim>\<open>get\<close> trap answers it before the Worker is asked.
\<close>

datatype key = Idx nat | Name string | Sym nat

text \<open>
  Language values. Numbers are integers plus \<^verbatim>\<open>NaN\<close>, the one number that the
  strict comparison \<^verbatim>\<open>!==\<close> of \<^verbatim>\<open>getValue\<close> tells apart from itself. An object
  (plain object, array or Facade) is a reference into the store.
\<close>

datatype val =
    VUndefined | VNull | VBool bool | VNum int | VNaN | VStr string
  | VSymbol nat | VBigInt int | VFun nat | VRef addr

datatype jstype =
    TString | TNumber | TBoolean | TUndefined | TObject | TFunction | TSymbol | TBigint

fun typeof :: "val \<Rightarrow> jstype" where
  "typeof VUndefined = TUndefined"
| "typeof VNull = TObject"
| "typeof (VBool b) = TBoolean"
| "typeof (VNum n) = TNumber"
| "typeof VNaN = TNumber"
| "typeof (VStr s) = TString"
| "typeof (VSymbol s) = TSymbol"
| "typeof (VBigInt n) = TBigint"
| "typeof (VFun f) = TFunction"
| "typeof (VRef a) = TObject"

text \<open>\<^verbatim>\<open>a !== b\<close> is \<open>\<not> strict_eq a b\<close>.\<close>

fun strict_eq :: "val \<Rightarrow> val \<Rightarrow> bool" where
  "strict_eq VNaN b = False"
| "strict_eq a b = (a = b)"

text \<open>
  A property of an object: a data property (value, writable, enumerable,
  configurable) or an accessor property (what its getter yields, if it has a
  getter; whether it has a setter; enumerable; configurable). A getter is
  modelled by the value it yields: getters that have effects of their own are
  not part of this model.
\<close>

datatype property =
    Data val bool bool bool
  | Accessor "val option" bool bool bool

fun prop_value :: "property \<Rightarrow> val" where
  "prop_value (Data v w e c) = v"
| "prop_value (Accessor g s e c) = (case g of None \<Rightarrow> VUndefined | Some v \<Rightarrow> v)"

fun prop_enumerable :: "property \<Rightarrow> bool" where
  "prop_enumerable (Data v w e c) = e"
| "prop_enumerable (Accessor g s e c) = e"

fun prop_configurable :: "property \<Rightarrow> bool" where
  "prop_configurable (Data v w e c) = c"
| "prop_configurable (Accessor g s e c) = c"

text \<open>
  A property descriptor object, as \<^verbatim>\<open>Reflect.getOwnPropertyDescriptor\<close> returns
  it and as the \<^verbatim>\<open>defineProperty\<close> trap receives it: every field may be absent.
  \<open>d_get = Some None\<close> is a field \<^verbatim>\<open>get: undefined\<close>.
\<close>

record desc =
  d_value :: "val option"
  d_get :: "val option option"
  d_set :: "bool option"
  d_writable :: "bool option"
  d_enumerable :: "bool option"
  d_configurable :: "bool option"

fun from_prop :: "property \<Rightarrow> desc" where
  "from_prop (Data v w e c) =
     \<lparr>d_value = Some v, d_get = None, d_set = None,
      d_writable = Some w, d_enumerable = Some e, d_configurable = Some c\<rparr>"
| "from_prop (Accessor g s e c) =
     \<lparr>d_value = None, d_get = Some g, d_set = Some s,
      d_writable = None, d_enumerable = Some e, d_configurable = Some c\<rparr>"

text \<open>\<^verbatim>\<open>desc.configurable\<close> as a condition, and \<^verbatim>\<open>desc.value\<close> as a value.\<close>

definition configurable :: "desc \<Rightarrow> bool" where
  "configurable d = (d_configurable d = Some True)"

definition value_of :: "desc \<Rightarrow> val" where
  "value_of d = (case d_value d of None \<Rightarrow> VUndefined | Some v \<Rightarrow> v)"

text \<open>
  The ancestor (prototype) chain of an object is an immutable value: the
  property tables of the ancestors, nearest first. Nothing in the two source
  files writes to an ancestor.
\<close>

datatype chain = ChainEnd | ChainObj "(key \<times> property) list" chain

fun chain_has :: "chain \<Rightarrow> key \<Rightarrow> bool" where
  "chain_has ChainEnd k = False"
| "chain_has (ChainObj ps rest) k = (k \<in> fst ` set ps \<or> chain_has rest k)"

fun chain_get :: "chain \<Rightarrow> key \<Rightarrow> val" where
  "chain_get ChainEnd k = VUndefined"
| "chain_get (ChainObj ps rest) k =
     (case map_of ps k of Some p \<Rightarrow> prop_value p | None \<Rightarrow> chain_get rest k)"

text \<open>
  A container: its own properties in own-key order, its ancestor chain, and
  whether it is an array (\<^verbatim>\<open>Array.isArray\<close>).
\<close>

record obj =
  ob_props :: "(key \<times> property) list"
  ob_proto :: chain
  ob_array :: bool

definition own_keys :: "obj \<Rightarrow> key list" where
  "own_keys ob = map fst (ob_props ob)"

definition own_desc :: "obj \<Rightarrow> key \<Rightarrow> desc option" where
  "own_desc ob k = map_option from_prop (map_of (ob_props ob) k)"

definition obj_has :: "obj \<Rightarrow> key \<Rightarrow> bool" where
  "obj_has ob k = (k \<in> set (own_keys ob) \<or> chain_has (ob_proto ob) k)"

definition obj_get :: "obj \<Rightarrow> key \<Rightarrow> val" where
  "obj_get ob k =
     (case map_of (ob_props ob) k of
        Some p \<Rightarrow> prop_value p
      | None \<Rightarrow> chain_get (ob_proto ob) k)"

section \<open>The Worker\<close>

datatype ops = GET | SET | DEL | DEF

type_synonym op_entry = "ops \<times> desc option"

text \<open>
  \<^verbatim>\<open>records\<close> is a \<^verbatim>\<open>Map\<close> from key to a non-empty array of operations, in
  insertion order of the keys. \<^verbatim>\<open>addOp\<close> is its only writer and always pushes,
  so an array is stored as the pair of its earlier entries and its last entry.
  \<^verbatim>\<open>proto\<close> is \<open>None\<close> for \<^verbatim>\<open>undefined\<close>, \<open>Some ChainEnd\<close> for \<^verbatim>\<open>null\<close>.
\<close>

record worker =
  records :: "(key \<times> op_entry list \<times> op_entry) list"
  client :: addr
  proto :: "chain option"

datatype cell = Plain obj | Facade worker

type_synonym heap = "cell list"

datatype error = TypeError | RangeError

datatype 'a outcome = Returned 'a | Threw error | Diverged

text \<open>
  The store is the list of its cells and an address is an index into it; a
  new cell is appended. A reference to an address that holds no plain
  container reads as an object without properties and without ancestor.
\<close>

definition lookup :: "heap \<Rightarrow> addr \<Rightarrow> cell option" where
  "lookup h a = (if a < length h then Some (h ! a) else None)"

definition empty_obj :: obj where
  "empty_obj = \<lparr>ob_props = [], ob_proto = ChainEnd, ob_array = False\<rparr>"

definition plain_at :: "heap \<Rightarrow> addr \<Rightarrow> obj" where
  "plain_at h a = (case lookup h a of Some (Plain ob) \<Rightarrow> ob | _ \<Rightarrow> empty_obj)"

definition isPrimitive :: "val \<Rightarrow> bool" where
  "isPrimitive target =
     (if typeof target \<in> {TString, TNumber, TBoolean, TUndefined} then True
      else if target = VNull then True
      else False)"

definition isFunction :: "val \<Rightarrow> bool" where
  "isFunction target = (typeof target = TFunction)"

definition isDuplicable :: "val \<Rightarrow> bool" where
  "isDuplicable target = (\<not> (isPrimitive target \<or> isFunction target))"

text \<open>
  \<^verbatim>\<open>Boolean(target && target[MUTABLE])\<close>: only a Facade answers the key
  \<^verbatim>\<open>MUTABLE\<close>, with its Worker.
\<close>

definition isMutable :: "heap \<Rightarrow> val \<Rightarrow> bool" where
  "isMutable h target =
     (case target of
        VRef a \<Rightarrow> (case lookup h a of Some (Facade w) \<Rightarrow> True | _ \<Rightarrow> False)
      | _ \<Rightarrow> False)"

text \<open>
  The constructor. \<^verbatim>\<open>client.__proto__\<close> (as-mutable) is \<^verbatim>\<open>undefined\<close> for an
  object without ancestor; \<^verbatim>\<open>Reflect.getPrototypeOf(client)\<close> (im-mutable) is
  \<^verbatim>\<open>null\<close> there.
\<close>

definition new_ProxyWorker :: "variant \<Rightarrow> heap \<Rightarrow> addr \<Rightarrow> worker" where
  "new_ProxyWorker vr h c =
     \<lparr>records = [],
      client = c,
      proto = (case vr of
                 AsMutable \<Rightarrow>
                   (case ob_proto (plain_at h c) of
                      ChainEnd \<Rightarrow> None
                    | ChainObj ps rest \<Rightarrow> Some (ChainObj ps rest))
               | ImMutable \<Rightarrow> Some (ob_proto (plain_at h c)))\<rparr>"

definition query :: "worker \<Rightarrow> key \<Rightarrow> op_entry option" where
  "query w k = (case map_of (records w) k of None \<Rightarrow> None | Some (earlier, lastOp) \<Rightarrow> Some lastOp)"

text \<open>\<^verbatim>\<open>Map.prototype.set\<close>: an existing key keeps its place, a new key goes last.\<close>

fun map_set :: "'k \<Rightarrow> 'v \<Rightarrow> ('k \<times> 'v) list \<Rightarrow> ('k \<times> 'v) list" where
  "map_set k v [] = [(k, v)]"
| "map_set k v ((k', v') # m) =
     (if k = k' then (k, v) # m else (k', v') # map_set k v m)"

definition addOp :: "key \<Rightarrow> op_entry \<Rightarrow> worker \<Rightarrow> worker" where
  "addOp k e w =
     (let record = (case map_of (records w) k of
                      None \<Rightarrow> ([], e)
                    | Some (earlier, lastOp) \<Rightarrow> (earlier @ [lastOp], e))
      in w\<lparr>records := map_set k record (records w)\<rparr>)"

text \<open>\<^verbatim>\<open>Reflect.has(this.proto, key)\<close> throws when \<^verbatim>\<open>this.proto\<close> is not an object.\<close>

definition reflect_has_proto :: "chain option \<Rightarrow> key \<Rightarrow> bool outcome" where
  "reflect_has_proto p k =
     (case p of
        Some (ChainObj ps rest) \<Rightarrow> Returned (chain_has (ChainObj ps rest) k)
      | _ \<Rightarrow> Threw TypeError)"

definition has :: "variant \<Rightarrow> heap \<Rightarrow> worker \<Rightarrow> key \<Rightarrow> bool outcome" where
  "has vr h w k =
     (case vr of
        AsMutable \<Rightarrow>
          (case query w k of
             None \<Rightarrow>
               (let hasOwnProperty = (own_desc (plain_at h (client w)) k \<noteq> None)
                in case reflect_has_proto (proto w) k of
                     Returned hasProtoProperty \<Rightarrow> Returned (hasOwnProperty \<or> hasProtoProperty)
                   | Threw e \<Rightarrow> Threw e
                   | Diverged \<Rightarrow> Diverged)
           | Some (opcode, d) \<Rightarrow>
               if opcode = DEL then reflect_has_proto (proto w) k else Returned True)
      | ImMutable \<Rightarrow>
          (case query w k of
             None \<Rightarrow> Returned (obj_has (plain_at h (client w)) k)
           | Some (opcode, d) \<Rightarrow>
               if opcode = DEL
               then Returned (obj_has (plain_at h (client w)) k
                              \<and> own_desc (plain_at h (client w)) k = None)
               else Returned True))"

definition getOwnPropertyDescriptor :: "heap \<Rightarrow> worker \<Rightarrow> key \<Rightarrow> desc option" where
  "getOwnPropertyDescriptor h w k =
     (case query w k of
        Some (opcode, d) \<Rightarrow> d
      | None \<Rightarrow> own_desc (plain_at h (client w)) k)"

definition hasOwnProperty :: "heap \<Rightarrow> worker \<Rightarrow> key \<Rightarrow> bool" where
  "hasOwnProperty h w k = (getOwnPropertyDescriptor h w k \<noteq> None)"

text \<open>A \<^verbatim>\<open>Set\<close> in insertion order.\<close>

definition set_add :: "'a \<Rightarrow> 'a list \<Rightarrow> 'a list" where
  "set_add k ks = (if k \<in> set ks then ks else ks @ [k])"

definition set_delete :: "'a \<Rightarrow> 'a list \<Rightarrow> 'a list" where
  "set_delete k ks = removeAll k ks"

definition ownKeys :: "variant \<Rightarrow> heap \<Rightarrow> worker \<Rightarrow> key list" where
  "ownKeys vr h w =
     (let originalKeys = own_keys (plain_at h (client w)) in
      case vr of
        AsMutable \<Rightarrow>
          (let keys = foldl (\<lambda>keys k. set_add k keys) [] originalKeys
           in foldl (\<lambda>keys (k, earlier, lastOp).
                       if fst lastOp = DEL then set_delete k keys else set_add k keys)
                keys (records w))
      | ImMutable \<Rightarrow>
          (let keys = foldl (\<lambda>keys k.
                        if map_of (records w) k \<noteq> None
                        then (if map_option fst (query w k) \<noteq> Some DEL then keys @ [k] else keys)
                        else keys @ [k])
                      [] originalKeys
           in foldl (\<lambda>keys (k, earlier, lastOp).
                       if fst lastOp \<noteq> DEL then keys @ [k] else keys)
                keys (records w)))"

definition defineProperty :: "key \<Rightarrow> desc \<Rightarrow> worker \<Rightarrow> worker" where
  "defineProperty k d w = addOp k (DEF, Some d) w"

definition del :: "heap \<Rightarrow> worker \<Rightarrow> key \<Rightarrow> bool \<times> worker" where
  "del h w k =
     (case getOwnPropertyDescriptor h w k of
        None \<Rightarrow> (True, w)
      | Some d \<Rightarrow>
          if configurable d then (True, addOp k (DEL, None) w) else (False, w))"


section \<open>The entry function and the traps\<close>

text \<open>
  \<^verbatim>\<open>asMutable\<close> (\<^verbatim>\<open>mutable\<close> in im-mutable.ts). A new Facade is allocated at
  the first free address. \<^verbatim>\<open>isPrimitive\<close> does not list symbols and big
  integers, so they reach the constructors, which refuse a target that is not
  an object.
\<close>

definition asMutable :: "variant \<Rightarrow> heap \<Rightarrow> val \<Rightarrow> val outcome \<times> heap" where
  "asMutable vr h target =
     (if \<not> isDuplicable target then (Returned target, h)
      else if isMutable h target then (Returned target, h)
      else case target of
             VRef a \<Rightarrow> (Returned (VRef (length h)), h @ [Facade (new_ProxyWorker vr h a)])
           | _ \<Rightarrow> (Threw TypeError, h))"

text \<open>
  The methods of the Worker that write to it take the address \<open>f\<close> of the
  Facade that owns the Worker \<open>w\<close>, and store the Worker back there.
\<close>

definition get :: "variant \<Rightarrow> heap \<Rightarrow> addr \<Rightarrow> worker \<Rightarrow> key \<Rightarrow> val outcome \<times> heap" where
  "get vr h f w k =
     (case vr of
        AsMutable \<Rightarrow>
          (case query w k of
             Some (opcode, d) \<Rightarrow>
               (Returned (case d of None \<Rightarrow> VUndefined | Some d' \<Rightarrow> value_of d'), h)
           | None \<Rightarrow>
               (case own_desc (plain_at h (client w)) k of
                  Some d \<Rightarrow>
                    (case asMutable vr h (obj_get (plain_at h (client w)) k) of
                       (Returned v, h') \<Rightarrow>
                         if isMutable h' v \<and> d_value d \<noteq> None
                         then (Returned v,
                               h'[f := Facade (addOp k (GET, Some (d\<lparr>d_value := Some v\<rparr>)) w)])
                         else (Returned v, h')
                     | (Threw e, h') \<Rightarrow> (Threw e, h')
                     | (Diverged, h') \<Rightarrow> (Diverged, h'))
                | None \<Rightarrow>
                    (Returned (case proto w of
                                 None \<Rightarrow> VUndefined
                               | Some ChainEnd \<Rightarrow> VNull
                               | Some (ChainObj ps rest) \<Rightarrow> chain_get (ChainObj ps rest) k), h)))
      | ImMutable \<Rightarrow>
          (case query w k of
             None \<Rightarrow>
               (case own_desc (plain_at h (client w)) k of
                  Some d \<Rightarrow>
                    (case asMutable vr h (obj_get (plain_at h (client w)) k) of
                       (Returned v, h') \<Rightarrow>
                         if isMutable h' v \<and> d_value d \<noteq> None
                         then (Returned v,
                               h'[f := Facade (addOp k (GET, Some (d\<lparr>d_value := Some v\<rparr>)) w)])
                         else (Returned v, h')
                     | (Threw e, h') \<Rightarrow> (Threw e, h')
                     | (Diverged, h') \<Rightarrow> (Diverged, h'))
                | None \<Rightarrow> (Returned (obj_get (plain_at h (client w)) k), h))
           | Some (opcode, d) \<Rightarrow>
               (case d of
                  None \<Rightarrow> (Threw TypeError, h)
                | Some d' \<Rightarrow> (Returned (value_of d'), h))))"

definition set_key :: "variant \<Rightarrow> heap \<Rightarrow> addr \<Rightarrow> worker \<Rightarrow> key \<Rightarrow> val \<Rightarrow> unit outcome \<times> heap" where
  "set_key vr h f w k v =
     (case asMutable vr h v of
        (Returned v', h') \<Rightarrow>
          (let d = \<lparr>d_value = Some v', d_get = None, d_set = None,
                    d_writable = Some True, d_enumerable = Some True, d_configurable = Some True\<rparr>
           in (Returned (), h'[f := Facade (addOp k (SET, Some d) w)]))
      | (Threw e, h') \<Rightarrow> (Threw e, h')
      | (Diverged, h') \<Rightarrow> (Diverged, h'))"

text \<open>
  The handler object of \<^verbatim>\<open>new Proxy(target, {...})\<close>, one function per trap.
  The checks that the language runs on what a trap returns are outside the two
  source files and are not modelled.
\<close>

definition trap_get :: "variant \<Rightarrow> heap \<Rightarrow> addr \<Rightarrow> worker \<Rightarrow> key \<Rightarrow> val outcome \<times> heap" where
  "trap_get vr h f w k = get vr h f w k"

definition trap_set :: "variant \<Rightarrow> heap \<Rightarrow> addr \<Rightarrow> worker \<Rightarrow> key \<Rightarrow> val \<Rightarrow> bool outcome \<times> heap" where
  "trap_set vr h f w k v =
     (case set_key vr h f w k v of
        (Returned u, h') \<Rightarrow> (Returned True, h')
      | (Threw e, h') \<Rightarrow> (Threw e, h')
      | (Diverged, h') \<Rightarrow> (Diverged, h'))"

text \<open>\<^verbatim>\<open>oldDesc.configurable\<close> is a property read on \<^verbatim>\<open>oldDesc\<close>.\<close>

definition trap_defineProperty :: "heap \<Rightarrow> addr \<Rightarrow> worker \<Rightarrow> key \<Rightarrow> desc \<Rightarrow> bool outcome \<times> heap" where
  "trap_defineProperty h f w k d =
     (case getOwnPropertyDescriptor h w k of
        None \<Rightarrow> (Threw TypeError, h)
      | Some oldDesc \<Rightarrow>
          if \<not> configurable oldDesc then (Returned False, h)
          else (Returned True, h[f := Facade (defineProperty k d w)]))"

definition trap_getOwnPropertyDescriptor :: "heap \<Rightarrow> worker \<Rightarrow> key \<Rightarrow> desc option" where
  "trap_getOwnPropertyDescriptor h w k = getOwnPropertyDescriptor h w k"

definition trap_has :: "variant \<Rightarrow> heap \<Rightarrow> worker \<Rightarrow> key \<Rightarrow> bool outcome" where
  "trap_has vr h w k = has vr h w k"

definition trap_ownKeys :: "variant \<Rightarrow> heap \<Rightarrow> worker \<Rightarrow> key list" where
  "trap_ownKeys vr h w = ownKeys vr h w"

definition trap_deleteProperty :: "heap \<Rightarrow> addr \<Rightarrow> worker \<Rightarrow> key \<Rightarrow> bool \<times> heap" where
  "trap_deleteProperty h f w k = (case del h w k of (b, w') \<Rightarrow> (b, h[f := Facade w']))"

definition trap_getPrototypeOf :: "worker \<Rightarrow> chain option" where
  "trap_getPrototypeOf w = proto w"

definition trap_setPrototypeOf :: "heap \<Rightarrow> addr \<Rightarrow> worker \<Rightarrow> chain \<Rightarrow> bool \<times> heap" where
  "trap_setPrototypeOf h f w p = (True, h[f := Facade (w\<lparr>proto := Some p\<rparr>)])"

definition trap_preventExtensions :: bool where
  "trap_preventExtensions = False"

definition trap_isExtensible :: bool where
  "trap_isExtensible = True"


section \<open>What the language does to the duplicate\<close>

text \<open>
  \<^verbatim>\<open>getValue\<close> builds its result with four operations of the language: spread
  (\<^verbatim>\<open>{ ...client }\<close>, \<^verbatim>\<open>[...client]\<close>), \<^verbatim>\<open>delete result[key]\<close>,
  \<^verbatim>\<open>Object.defineProperty(result, key, desc)\<close> and \<^verbatim>\<open>result[key] = newValue\<close>.
  They are modelled here on one object, as the language defines them for
  strict-mode code (a module is strict-mode code): a refused delete or assignment
  throws. Limits of the model: a setter that is called has no effect, the
  accessor \<^verbatim>\<open>__proto__\<close> is modelled where the source uses it (the constructor
  and \<open>set_proto\<close>) and not as a key, and a new array length given as a
  string or an object counts as invalid.
\<close>

definition builtin :: "nat \<Rightarrow> string list \<Rightarrow> (key \<times> property) list" where
  "builtin base names =
     map (\<lambda>(i, n). (Name n, Data (VFun (base + i)) True False True)) (enumerate 0 names)"

definition object_prototype :: chain where
  "object_prototype =
     ChainObj
       (builtin 0 [''constructor'', ''__defineGetter__'', ''__defineSetter__'',
                   ''hasOwnProperty'', ''__lookupGetter__'', ''__lookupSetter__'',
                   ''isPrototypeOf'', ''propertyIsEnumerable'', ''toString'', ''valueOf'',
                   ''toLocaleString'']
        @ [(Name ''__proto__'', Accessor None True False True)])
       ChainEnd"

definition array_prototype :: chain where
  "array_prototype =
     ChainObj
       ((Name ''length'', Data (VNum 0) True False False)
        # builtin 100 [''constructor'', ''concat'', ''copyWithin'', ''fill'', ''find'',
                       ''findIndex'', ''lastIndexOf'', ''pop'', ''push'', ''reverse'', ''shift'',
                       ''unshift'', ''slice'', ''sort'', ''splice'', ''includes'', ''indexOf'',
                       ''join'', ''keys'', ''entries'', ''values'', ''forEach'', ''filter'',
                       ''map'', ''every'', ''some'', ''reduce'', ''reduceRight'',
                       ''toLocaleString'', ''toString''])
       object_prototype"

text \<open>\<^verbatim>\<open>{ ...client }\<close>: the own enumerable properties, read and stored as plain data.\<close>

definition spread_object :: "obj \<Rightarrow> obj" where
  "spread_object ob =
     \<lparr>ob_props = map (\<lambda>(k, p). (k, Data (prop_value p) True True True))
                     (filter (\<lambda>(k, p). prop_enumerable p) (ob_props ob)),
      ob_proto = object_prototype,
      ob_array = False\<rparr>"

definition array_length :: "obj \<Rightarrow> nat" where
  "array_length ob =
     (case map_of (ob_props ob) (Name ''length'') of
        Some (Data (VNum n) w e c) \<Rightarrow> nat n
      | _ \<Rightarrow> 0)"

text \<open>\<^verbatim>\<open>[...client]\<close>: the elements at the indices below the length, holes read as they read.\<close>

definition spread_array :: "obj \<Rightarrow> obj" where
  "spread_array ob =
     \<lparr>ob_props = map (\<lambda>i. (Idx i, Data (obj_get ob (Idx i)) True True True)) [0 ..< array_length ob]
                 @ [(Name ''length'', Data (VNum (int (array_length ob))) True False False)],
      ob_proto = array_prototype,
      ob_array = True\<rparr>"

text \<open>\<^verbatim>\<open>result.__proto__ = proto\<close>: the setter ignores \<^verbatim>\<open>undefined\<close>.\<close>

definition set_proto :: "chain option \<Rightarrow> obj \<Rightarrow> obj" where
  "set_proto p ob = (case p of None \<Rightarrow> ob | Some c \<Rightarrow> ob\<lparr>ob_proto := c\<rparr>)"

definition remove_key :: "key \<Rightarrow> (key \<times> property) list \<Rightarrow> (key \<times> property) list" where
  "remove_key k ps = filter (\<lambda>(k', p). k' \<noteq> k) ps"

definition delete_own :: "key \<Rightarrow> obj \<Rightarrow> error + obj" where
  "delete_own k ob =
     (case map_of (ob_props ob) k of
        None \<Rightarrow> Inr ob
      | Some p \<Rightarrow>
          if prop_configurable p then Inr (ob\<lparr>ob_props := remove_key k (ob_props ob)\<rparr>)
          else Inl TypeError)"

definition is_accessor_desc :: "desc \<Rightarrow> bool" where
  "is_accessor_desc d = (d_get d \<noteq> None \<or> d_set d \<noteq> None)"

definition is_data_desc :: "desc \<Rightarrow> bool" where
  "is_data_desc d = (d_value d \<noteq> None \<or> d_writable d \<noteq> None)"

definition or_else :: "'a option \<Rightarrow> 'a \<Rightarrow> 'a" where
  "or_else x dflt = (case x of None \<Rightarrow> dflt | Some y \<Rightarrow> y)"

text \<open>
  The validation and application of a descriptor to the current property of
  an extensible object (the duplicate is never made non-extensible).
\<close>

definition apply_desc :: "desc \<Rightarrow> property option \<Rightarrow> error + property" where
  "apply_desc d current =
     (if is_accessor_desc d \<and> is_data_desc d then Inl TypeError
      else case current of
        None \<Rightarrow>
          if is_accessor_desc d
          then Inr (Accessor (or_else (d_get d) None) (or_else (d_set d) False)
                      (or_else (d_enumerable d) False) (or_else (d_configurable d) False))
          else Inr (Data (or_else (d_value d) VUndefined) (or_else (d_writable d) False)
                      (or_else (d_enumerable d) False) (or_else (d_configurable d) False))
      | Some (Data v w e c) \<Rightarrow>
          if \<not> c \<and> (d_configurable d = Some True
                     \<or> (d_enumerable d \<noteq> None \<and> d_enumerable d \<noteq> Some e))
          then Inl TypeError
          else if is_accessor_desc d
          then (if \<not> c then Inl TypeError
                else Inr (Accessor (or_else (d_get d) None) (or_else (d_set d) False)
                            (or_else (d_enumerable d) e) (or_else (d_configurable d) c)))
          else if \<not> c \<and> \<not> w
                  \<and> (d_writable d = Some True \<or> (d_value d \<noteq> None \<and> d_value d \<noteq> Some v))
          then Inl TypeError
          else Inr (Data (or_else (d_value d) v) (or_else (d_writable d) w)
                      (or_else (d_enumerable d) e) (or_else (d_configurable d) c))
      | Some (Accessor g s e c) \<Rightarrow>
          if \<not> c \<and> (d_configurable d = Some True
                     \<or> (d_enumerable d \<noteq> None \<and> d_enumerable d \<noteq> Some e))
          then Inl TypeError
          else if is_data_desc d
          then (if \<not> c then Inl TypeError
                else Inr (Data (or_else (d_value d) VUndefined) (or_else (d_writable d) False)
                            (or_else (d_enumerable d) e) (or_else (d_configurable d) c)))
          else if \<not> c \<and> ((d_get d \<noteq> None \<and> d_get d \<noteq> Some g)
                          \<or> (d_set d \<noteq> None \<and> d_set d \<noteq> Some s))
          then Inl TypeError
          else Inr (Accessor (or_else (d_get d) g) (or_else (d_set d) s)
                      (or_else (d_enumerable d) e) (or_else (d_configurable d) c)))"

definition define_ordinary :: "key \<Rightarrow> desc \<Rightarrow> obj \<Rightarrow> error + obj" where
  "define_ordinary k d ob =
     (case apply_desc d (map_of (ob_props ob) k) of
        Inl e \<Rightarrow> Inl e
      | Inr p \<Rightarrow> Inr (ob\<lparr>ob_props := map_set k p (ob_props ob)\<rparr>))"

definition to_length :: "val \<Rightarrow> error + nat" where
  "to_length v =
     (case v of
        VNum n \<Rightarrow> if 0 \<le> n \<and> n < 2 ^ 32 then Inr (nat n) else Inl RangeError
      | VBool b \<Rightarrow> Inr (if b then 1 else 0)
      | VNull \<Rightarrow> Inr 0
      | VSymbol s \<Rightarrow> Inl TypeError
      | VBigInt n \<Rightarrow> Inl TypeError
      | _ \<Rightarrow> Inl RangeError)"

definition length_writable :: "obj \<Rightarrow> bool" where
  "length_writable ob =
     (case map_of (ob_props ob) (Name ''length'') of
        Some (Data v w e c) \<Rightarrow> w
      | _ \<Rightarrow> False)"

definition is_element_from :: "nat \<Rightarrow> key \<Rightarrow> bool" where
  "is_element_from n k = (case k of Idx i \<Rightarrow> n \<le> i | _ \<Rightarrow> False)"

text \<open>
  Defining a property of an array keeps \<^verbatim>\<open>length\<close> above every index and
  drops the elements at and above a smaller new length; an element that
  cannot be deleted makes the definition fail.
\<close>

definition define_own :: "key \<Rightarrow> desc \<Rightarrow> obj \<Rightarrow> error + obj" where
  "define_own k d ob =
     (if \<not> ob_array ob then define_ordinary k d ob
      else case k of
        Idx i \<Rightarrow>
          if array_length ob \<le> i \<and> \<not> length_writable ob then Inl TypeError
          else (case define_ordinary k d ob of
                  Inl e \<Rightarrow> Inl e
                | Inr ob' \<Rightarrow>
                    if array_length ob \<le> i
                    then define_ordinary (Name ''length'')
                           \<lparr>d_value = Some (VNum (int (Suc i))), d_get = None, d_set = None,
                            d_writable = None, d_enumerable = None, d_configurable = None\<rparr> ob'
                    else Inr ob')
      | Name n \<Rightarrow>
          if n = ''length'' \<and> d_value d \<noteq> None
          then (case to_length (value_of d) of
                  Inl e \<Rightarrow> Inl e
                | Inr newLen \<Rightarrow>
                    if array_length ob \<le> newLen
                    then define_ordinary k (d\<lparr>d_value := Some (VNum (int newLen))\<rparr>) ob
                    else if \<not> length_writable ob then Inl TypeError
                    else (case define_ordinary k (d\<lparr>d_value := Some (VNum (int newLen))\<rparr>) ob of
                            Inl e \<Rightarrow> Inl e
                          | Inr ob' \<Rightarrow>
                              if list_ex (\<lambda>(k', p). is_element_from newLen k' \<and> \<not> prop_configurable p)
                                   (ob_props ob')
                              then Inl TypeError
                              else Inr (ob'\<lparr>ob_props :=
                                         filter (\<lambda>(k', p). \<not> is_element_from newLen k')
                                           (ob_props ob')\<rparr>)))
          else define_ordinary k d ob
      | Sym s \<Rightarrow> define_ordinary k d ob)"

fun chain_find :: "chain \<Rightarrow> key \<Rightarrow> property option" where
  "chain_find ChainEnd k = None"
| "chain_find (ChainObj ps rest) k =
     (case map_of ps k of Some p \<Rightarrow> Some p | None \<Rightarrow> chain_find rest k)"

text \<open>
  \<^verbatim>\<open>result[key] = newValue\<close>: an own data property takes the value if it is
  writable; a key that is not an own key is created unless an ancestor holds
  it read-only or as an accessor.
\<close>

definition assign :: "key \<Rightarrow> val \<Rightarrow> obj \<Rightarrow> error + obj" where
  "assign k v ob =
     (let create = define_own k \<lparr>d_value = Some v, d_get = None, d_set = None,
                                d_writable = Some True, d_enumerable = Some True,
                                d_configurable = Some True\<rparr> ob
      in case map_of (ob_props ob) k of
        Some (Data cur w e c) \<Rightarrow>
          if \<not> w then Inl TypeError
          else define_own k \<lparr>d_value = Some v, d_get = None, d_set = None,
                             d_writable = None, d_enumerable = None, d_configurable = None\<rparr> ob
      | Some (Accessor g s e c) \<Rightarrow> if s then Inr ob else Inl TypeError
      | None \<Rightarrow>
          (case chain_find (ob_proto ob) k of
             Some (Data cur w e c) \<Rightarrow> if \<not> w then Inl TypeError else create
           | Some (Accessor g s e c) \<Rightarrow> if s then Inr ob else Inl TypeError
           | None \<Rightarrow> create))"

section \<open>The materializer\<close>

text \<open>
  The body of \<^verbatim>\<open>proxyWorker.records.forEach\<close>, entry by entry. \<open>rec\<close> is the
  recursive call of \<^verbatim>\<open>getValue\<close>, \<open>c\<close> the address of the client, \<open>r\<close> the
  address of the duplicate \<^verbatim>\<open>result\<close>.
\<close>

fun forEach_record ::
  "(heap \<Rightarrow> val \<Rightarrow> val outcome \<times> heap) \<Rightarrow> addr \<Rightarrow> addr \<Rightarrow>
   (key \<times> op_entry list \<times> op_entry) list \<Rightarrow> bool \<Rightarrow> heap \<Rightarrow> bool outcome \<times> heap" where
  "forEach_record rec c r [] mutated h = (Returned mutated, h)"
| "forEach_record rec c r ((k, earlier, (opcode, d)) # rest) mutated h =
     (case opcode of
        DEL \<Rightarrow>
          (case delete_own k (plain_at h r) of
             Inl e \<Rightarrow> (Threw e, h)
           | Inr ob \<Rightarrow> forEach_record rec c r rest True (h[r := Plain ob]))
      | DEF \<Rightarrow>
          (case d of
             None \<Rightarrow> (Threw TypeError, h)
           | Some d' \<Rightarrow>
               (case define_own k d' (plain_at h r) of
                  Inl e \<Rightarrow> (Threw e, h)
                | Inr ob \<Rightarrow> forEach_record rec c r rest True (h[r := Plain ob])))
      | _ \<Rightarrow>
          (case d of
             None \<Rightarrow> (Threw TypeError, h)
           | Some d' \<Rightarrow>
               (let oldValue = obj_get (plain_at h c) k in
                case rec h (value_of d') of
                  (Returned newValue, h') \<Rightarrow>
                    (case assign k newValue (plain_at h' r) of
                       Inl e \<Rightarrow> (Threw e, h')
                     | Inr ob \<Rightarrow>
                         forEach_record rec c r rest
                           (mutated \<or> \<not> strict_eq oldValue newValue) (h'[r := Plain ob]))
                | (Threw e, h') \<Rightarrow> (Threw e, h')
                | (Diverged, h') \<Rightarrow> (Diverged, h'))))"

text \<open>
  The duplicate: \<^verbatim>\<open>Array.isArray(client) ? [...client] : { ...client }\<close>, and in
  as-mutable.ts the line \<^verbatim>\<open>result.__proto__ = proto\<close> that follows.
\<close>

definition duplicate :: "variant \<Rightarrow> worker \<Rightarrow> obj \<Rightarrow> obj" where
  "duplicate vr proxyWorker ob =
     (let result = (if ob_array ob then spread_array ob else spread_object ob)
      in case vr of
           AsMutable \<Rightarrow> set_proto (proto proxyWorker) result
         | ImMutable \<Rightarrow> result)"

text \<open>
  \<^verbatim>\<open>getValue\<close>. The first argument bounds the depth of the recursion: a Facade
  whose log leads back to itself makes the source recurse without end, which is
  the outcome \<open>Diverged\<close> for every bound. The duplicate is allocated at the
  first free address.
\<close>

fun getValue :: "nat \<Rightarrow> variant \<Rightarrow> heap \<Rightarrow> val \<Rightarrow> val outcome \<times> heap" where
  "getValue 0 vr h target = (Diverged, h)"
| "getValue (Suc n) vr h target =
     (if \<not> isMutable h target then (Returned target, h)
      else case target of
        VRef f \<Rightarrow>
          (case lookup h f of
             Some (Facade proxyWorker) \<Rightarrow>
               (let c = client proxyWorker in
                if records proxyWorker = [] then (Returned (VRef c), h)
                else
                  (let result = duplicate vr proxyWorker (plain_at h c);
                       r = length h
                   in case forEach_record (getValue n vr) c r (records proxyWorker) False
                             (h @ [Plain result]) of
                        (Returned mutated, h') \<Rightarrow>
                          (Returned (if mutated then VRef r else VRef c), h')
                      | (Threw e, h') \<Rightarrow> (Threw e, h')
                      | (Diverged, h') \<Rightarrow> (Diverged, h')))
           | _ \<Rightarrow> (Returned target, h))
      | _ \<Rightarrow> (Returned target, h))"


section \<open>Sessions against Facades\<close>

text \<open>
  The operations a caller can run: the traps of a Facade, named as the
  specification names them, and the two entry points. An operation names its
  Facade by address. \<open>Unwrap n v\<close> is \<^verbatim>\<open>getValue(v)\<close> with recursion bound \<open>n\<close>.
\<close>

datatype fop =
    ReadProperty addr key
  | WriteProperty addr key val
  | DeleteProperty addr key
  | DefineProperty addr key desc
  | HasProperty addr key
  | ListOwnKeys addr
  | GetOwnDescriptor addr key
  | GetAncestor addr
  | SetAncestor addr chain
  | PreventExtensions addr
  | IsExtensible addr
  | Wrap val
  | Unwrap nat val

datatype result =
    RVal val | RBool bool | RKeys "key list" | RDesc "desc option" | RChain "chain option"
  | NotAFacade

definition on_facade ::
  "heap \<Rightarrow> addr \<Rightarrow> (worker \<Rightarrow> result outcome \<times> heap) \<Rightarrow> result outcome \<times> heap" where
  "on_facade h f trap =
     (case lookup h f of
        Some (Facade w) \<Rightarrow> trap w
      | _ \<Rightarrow> (Returned NotAFacade, h))"

definition tag :: "('a \<Rightarrow> result) \<Rightarrow> 'a outcome \<times> heap \<Rightarrow> result outcome \<times> heap" where
  "tag con p = (map_outcome con (fst p), snd p)"

fun step :: "variant \<Rightarrow> heap \<Rightarrow> fop \<Rightarrow> result outcome \<times> heap" where
  "step vr h (ReadProperty f k) = on_facade h f (\<lambda>w. tag RVal (trap_get vr h f w k))"
| "step vr h (WriteProperty f k v) = on_facade h f (\<lambda>w. tag RBool (trap_set vr h f w k v))"
| "step vr h (DeleteProperty f k) =
     on_facade h f (\<lambda>w. case trap_deleteProperty h f w k of (b, h') \<Rightarrow> (Returned (RBool b), h'))"
| "step vr h (DefineProperty f k d) = on_facade h f (\<lambda>w. tag RBool (trap_defineProperty h f w k d))"
| "step vr h (HasProperty f k) = on_facade h f (\<lambda>w. tag RBool (trap_has vr h w k, h))"
| "step vr h (ListOwnKeys f) = on_facade h f (\<lambda>w. (Returned (RKeys (trap_ownKeys vr h w)), h))"
| "step vr h (GetOwnDescriptor f k) =
     on_facade h f (\<lambda>w. (Returned (RDesc (trap_getOwnPropertyDescriptor h w k)), h))"
| "step vr h (GetAncestor f) = on_facade h f (\<lambda>w. (Returned (RChain (trap_getPrototypeOf w)), h))"
| "step vr h (SetAncestor f p) =
     on_facade h f (\<lambda>w. case trap_setPrototypeOf h f w p of (b, h') \<Rightarrow> (Returned (RBool b), h'))"
| "step vr h (PreventExtensions f) = on_facade h f (\<lambda>w. (Returned (RBool trap_preventExtensions), h))"
| "step vr h (IsExtensible f) = on_facade h f (\<lambda>w. (Returned (RBool trap_isExtensible), h))"
| "step vr h (Wrap v) = tag RVal (asMutable vr h v)"
| "step vr h (Unwrap n v) = tag RVal (getValue n vr h v)"

text \<open>A session: the outcomes of the operations in order, and the final store.\<close>

fun run :: "variant \<Rightarrow> heap \<Rightarrow> fop list \<Rightarrow> result outcome list \<times> heap" where
  "run vr h [] = ([], h)"
| "run vr h (x # xs) =
     (case step vr h x of
        (out, h') \<Rightarrow> (case run vr h' xs of (outs, h'') \<Rightarrow> (out # outs, h'')))"

text \<open>Plain objects for the examples: own data properties that are writable, enumerable and configurable.\<close>

definition plain_object :: "(key \<times> val) list \<Rightarrow> cell" where
  "plain_object kvs =
     Plain \<lparr>ob_props = map (\<lambda>(k, v). (k, Data v True True True)) kvs,
            ob_proto = object_prototype,
            ob_array = False\<rparr>"

section \<open>Notions used in the statements\<close>

text \<open>
  \<open>frame h h'\<close>: the store \<open>h'\<close> has every address of \<open>h\<close>, holds every plain
  container of \<open>h\<close> as it was, and holds a Facade for the same client wherever
  \<open>h\<close> held a Facade.
\<close>

definition frame :: "heap \<Rightarrow> heap \<Rightarrow> bool" where
  "frame h h' =
     (length h \<le> length h' \<and>
      (\<forall>a < length h.
         case h ! a of
           Plain ob \<Rightarrow> h' ! a = Plain ob
         | Facade w \<Rightarrow> (\<exists>w'. h' ! a = Facade w' \<and> client w' = client w)))"

text \<open>The example of the specification: \<^verbatim>\<open>x = {a:{v:1}, b:{v:2}}\<close>, with \<^verbatim>\<open>x\<close> at address 2.\<close>

definition sharing_heap :: heap where
  "sharing_heap =
     [plain_object [(Name ''v'', VNum 1)],
      plain_object [(Name ''v'', VNum 2)],
      plain_object [(Name ''a'', VRef 0), (Name ''b'', VRef 1)]]"

definition full_desc :: "val \<Rightarrow> desc" where
  "full_desc v =
     \<lparr>d_value = Some v, d_get = None, d_set = None,
      d_writable = Some True, d_enumerable = Some True, d_configurable = Some True\<rparr>"

text \<open>The last logged entry for the key is a Delete.\<close>

definition deleted :: "worker \<Rightarrow> key \<Rightarrow> bool" where
  "deleted w k = (case query w k of Some (opcode, d) \<Rightarrow> opcode = DEL | None \<Rightarrow> False)"

text \<open>\<^verbatim>\<open>{a: 1}\<close> at address 0, and the store after wrapping it (as-mutable): the Facade is at address 1.\<close>

definition one_key_heap :: heap where
  "one_key_heap = [plain_object [(Name ''a'', VNum 1)]]"


text \<open>
  The two sessions of the example on \<open>sharing_heap\<close>: \<^verbatim>\<open>f = wrap(x)\<close> is at
  address 3 and \<^verbatim>\<open>f.a\<close> at address 4. In the first \<^verbatim>\<open>f.a\<close> is read and not
  written; in the second \<^verbatim>\<open>f.a.v = 5\<close> follows the read.
\<close>

definition read_only_session :: "fop list" where
  "read_only_session = [Wrap (VRef 2), ReadProperty 3 (Name ''a''), Unwrap 3 (VRef 3)]"

definition overwrite_session :: "fop list" where
  "overwrite_session =
     [Wrap (VRef 2), ReadProperty 3 (Name ''a''), WriteProperty 4 (Name ''v'') (VNum 5),
      Unwrap 3 (VRef 3)]"

text \<open>What a finished overwrite session has to show, on its outcomes and final store.\<close>

definition shares_b_not_a :: "result outcome list \<times> heap \<Rightarrow> bool" where
  "shares_b_not_a p =
     (case p of (outs, h') \<Rightarrow>
        outs = [Returned (RVal (VRef 3)), Returned (RVal (VRef 4)), Returned (RBool True),
                Returned (RVal (VRef 5))]
        \<and> obj_get (plain_at h' 5) (Name ''b'') = obj_get (plain_at sharing_heap 2) (Name ''b'')
        \<and> obj_get (plain_at h' 5) (Name ''a'') \<noteq> obj_get (plain_at sharing_heap 2) (Name ''a'')
        \<and> obj_get (plain_at h' 5) (Name ''a'') = VRef 6
        \<and> obj_get (plain_at h' 6) (Name ''v'') = VNum 5
        \<and> obj_get (plain_at h' 0) (Name ''v'') = VNum 1)"

text \<open>
  A store without dangling references: every reference held anywhere in a
  cell (in a property, along an ancestor chain, in a logged descriptor) and
  every client address is below the size of the store.
\<close>

definition val_ok :: "nat \<Rightarrow> val \<Rightarrow> bool" where
  "val_ok L v = (case v of VRef a \<Rightarrow> a < L | _ \<Rightarrow> True)"

fun prop_ok :: "nat \<Rightarrow> property \<Rightarrow> bool" where
  "prop_ok L (Data v w e c) = val_ok L v"
| "prop_ok L (Accessor g s e c) = (case g of None \<Rightarrow> True | Some v \<Rightarrow> val_ok L v)"

definition props_ok :: "nat \<Rightarrow> (key \<times> property) list \<Rightarrow> bool" where
  "props_ok L ps = list_all (\<lambda>(k, p). prop_ok L p) ps"

fun chain_ok :: "nat \<Rightarrow> chain \<Rightarrow> bool" where
  "chain_ok L ChainEnd = True"
| "chain_ok L (ChainObj ps rest) = (props_ok L ps \<and> chain_ok L rest)"

definition obj_ok :: "nat \<Rightarrow> obj \<Rightarrow> bool" where
  "obj_ok L ob = (props_ok L (ob_props ob) \<and> chain_ok L (ob_proto ob))"

definition desc_ok :: "nat \<Rightarrow> desc \<Rightarrow> bool" where
  "desc_ok L d =
     ((case d_value d of None \<Rightarrow> True | Some v \<Rightarrow> val_ok L v)
      \<and> (case d_get d of Some (Some v) \<Rightarrow> val_ok L v | _ \<Rightarrow> True))"

definition entry_ok :: "nat \<Rightarrow> op_entry \<Rightarrow> bool" where
  "entry_ok L e = (case snd e of None \<Rightarrow> True | Some d \<Rightarrow> desc_ok L d)"

definition worker_ok :: "nat \<Rightarrow> worker \<Rightarrow> bool" where
  "worker_ok L w =
     (client w < L
      \<and> list_all (\<lambda>(k, earlier, lastOp). entry_ok L lastOp) (records w)
      \<and> (case proto w of None \<Rightarrow> True | Some c \<Rightarrow> chain_ok L c))"

fun cell_ok :: "nat \<Rightarrow> cell \<Rightarrow> bool" where
  "cell_ok L (Plain ob) = obj_ok L ob"
| "cell_ok L (Facade w) = worker_ok L w"

definition closed :: "heap \<Rightarrow> bool" where
  "closed h = list_all (cell_ok (length h)) h"

text \<open>
  \<open>sh L e\<close> renames addresses: an address at or above \<open>L\<close> moves up by
  \<open>e\<close>. It relates a run of \<^verbatim>\<open>getValue\<close> to the run on a store that holds
  \<open>e\<close> more cells from address \<open>L\<close> on.
\<close>

definition sh :: "nat \<Rightarrow> nat \<Rightarrow> val \<Rightarrow> val" where
  "sh L e v = (case v of VRef a \<Rightarrow> VRef (if L \<le> a then a + e else a) | _ \<Rightarrow> v)"

fun sh_prop :: "nat \<Rightarrow> nat \<Rightarrow> property \<Rightarrow> property" where
  "sh_prop L e (Data v w en c) = Data (sh L e v) w en c"
| "sh_prop L e (Accessor g s en c) = Accessor (map_option (sh L e) g) s en c"

definition sh_props :: "nat \<Rightarrow> nat \<Rightarrow> (key \<times> property) list \<Rightarrow> (key \<times> property) list" where
  "sh_props L e ps = map (\<lambda>(k, p). (k, sh_prop L e p)) ps"

definition sh_obj :: "nat \<Rightarrow> nat \<Rightarrow> obj \<Rightarrow> obj" where
  "sh_obj L e ob = ob\<lparr>ob_props := sh_props L e (ob_props ob)\<rparr>"

definition sh_desc :: "nat \<Rightarrow> nat \<Rightarrow> desc \<Rightarrow> desc" where
  "sh_desc L e d =
     d\<lparr>d_value := map_option (sh L e) (d_value d),
       d_get := map_option (map_option (sh L e)) (d_get d)\<rparr>"

fun sh_cell :: "nat \<Rightarrow> nat \<Rightarrow> cell \<Rightarrow> cell" where
  "sh_cell L e (Plain ob) = Plain (sh_obj L e ob)"
| "sh_cell L e (Facade w) = Facade w"





text \<open>
  The Facade an operation is run against, and the sessions all of whose Facade
  operations are run against Facades at address \<open>L\<close> or above.
\<close>

fun target :: "fop \<Rightarrow> addr option" where
  "target (ReadProperty f k) = Some f"
| "target (WriteProperty f k v) = Some f"
| "target (DeleteProperty f k) = Some f"
| "target (DefineProperty f k d) = Some f"
| "target (HasProperty f k) = Some f"
| "target (ListOwnKeys f) = Some f"
| "target (GetOwnDescriptor f k) = Some f"
| "target (GetAncestor f) = Some f"
| "target (SetAncestor f p) = Some f"
| "target (PreventExtensions f) = Some f"
| "target (IsExtensible f) = Some f"
| "target (Wrap v) = None"
| "target (Unwrap n v) = None"

definition against :: "nat \<Rightarrow> fop list \<Rightarrow> bool" where
  "against L xs = list_all (\<lambda>x. case target x of None \<Rightarrow> True | Some f \<Rightarrow> L \<le> f) xs"

text \<open>
  An origin with an accessor property: the container \<^verbatim>\<open>{v: 1}\<close> at address 0,
  the origin at address 1, whose key \<^verbatim>\<open>child\<close> is a getter that yields the
  container at 0, and at address 2 a Facade of the origin on which \<^verbatim>\<open>x = 7\<close>
  has been written.
\<close>

definition accessor_worker :: worker where
  "accessor_worker = \<lparr>records = [(Name ''x'', [], SET, Some (full_desc (VNum 7)))],
                      client = 1,
                      proto = Some object_prototype\<rparr>"

definition accessor_heap :: heap where
  "accessor_heap =
     [plain_object [(Name ''v'', VNum 1)],
      Plain \<lparr>ob_props = [(Name ''child'', Accessor (Some (VRef 0)) False True True)],
             ob_proto = object_prototype,
             ob_array = False\<rparr>,
      Facade accessor_worker]"

definition child_facade :: cell where
  "child_facade = Facade (new_ProxyWorker AsMutable accessor_heap 0)"

text \<open>
  \<open>nesting_le n h v\<close>: following the buffered values of Read and Write
  entries from \<open>v\<close>, at most \<open>n\<close> Facades are met in a row. No \<open>n\<close> bounds a
  Facade whose log leads back to itself.
\<close>

fun nesting_le :: "nat \<Rightarrow> heap \<Rightarrow> val \<Rightarrow> bool" where
  "nesting_le 0 h v = (\<not> isMutable h v)"
| "nesting_le (Suc n) h v =
     (case v of
        VRef f \<Rightarrow>
          (case lookup h f of
             Some (Facade w) \<Rightarrow>
               list_all (\<lambda>(k, earlier, (opcode, d)).
                           case d of
                             None \<Rightarrow> True
                           | Some d' \<Rightarrow> opcode = DEL \<or> opcode = DEF \<or> nesting_le n h (value_of d'))
                 (records w)
           | _ \<Rightarrow> True)
      | _ \<Rightarrow> True)"




text \<open>
  The arguments of an operation hold no dangling reference, and a session in
  which this is so for every operation at the time it runs.
\<close>

fun fop_ok :: "nat \<Rightarrow> fop \<Rightarrow> bool" where
  "fop_ok L (WriteProperty f k v) = val_ok L v"
| "fop_ok L (DefineProperty f k d) = desc_ok L d"
| "fop_ok L (SetAncestor f p) = chain_ok L p"
| "fop_ok L (Wrap v) = val_ok L v"
| "fop_ok L (Unwrap n v) = val_ok L v"
| "fop_ok L x = True"

fun run_ok :: "variant \<Rightarrow> heap \<Rightarrow> fop list \<Rightarrow> bool" where
  "run_ok vr h [] = True"
| "run_ok vr h (x # xs) = (fop_ok (length h) x \<and> run_ok vr (snd (step vr h x)) xs)"

text \<open>
  A well-formed log holds a key once, a Delete entry holds no descriptor, and
  every other entry holds one.
\<close>

definition wf_log :: "worker \<Rightarrow> bool" where
  "wf_log w =
     (distinct (map fst (records w))
      \<and> list_all (\<lambda>(k, earlier, (opcode, d)). (opcode = DEL) = (d = None)) (records w))"

definition wf_logs :: "heap \<Rightarrow> bool" where
  "wf_logs h = list_all (\<lambda>c. case c of Plain ob \<Rightarrow> True | Facade w \<Rightarrow> wf_log w) h"

section \<open>Properties\<close>

subsection \<open>The store only grows, and plain containers stay as they are\<close>

lemma frame_refl: "frame h h"
  by (auto simp: frame_def split: cell.splits)

lemma frame_trans: "frame h1 h2 \<Longrightarrow> frame h2 h3 \<Longrightarrow> frame h1 h3"
  unfolding frame_def
  apply (intro conjI allI impI)
   apply simp
  subgoal for a
    apply (cases "h1 ! a")
     apply (auto split: cell.splits)
    apply (metis less_le_trans)
    done
  done

lemma frame_append: "frame h (h @ ext)"
  by (auto simp: frame_def nth_append split: cell.splits)

lemma frame_update:
  "lookup h f = Some (Facade w) \<Longrightarrow> client w' = client w \<Longrightarrow> frame h (h[f := Facade w'])"
  by (auto simp: frame_def lookup_def nth_list_update split: cell.splits if_splits)

lemma frame_same: "lookup h f = Some (Facade w) \<Longrightarrow> h[f := Facade w] = h"
  by (auto simp: lookup_def split: if_splits intro: list_update_same_conv [THEN iffD2])

lemma ext_frame: "\<exists>ext. h' = h @ ext \<Longrightarrow> frame h h'"
  using frame_append by auto

lemma client_addOp: "client (addOp k e w) = client w"
  by (simp add: addOp_def Let_def)

lemma proto_addOp: "proto (addOp k e w) = proto w"
  by (simp add: addOp_def Let_def)

lemma lookup_append: "lookup h f = Some c \<Longrightarrow> lookup (h @ ext) f = Some c"
  by (auto simp: lookup_def nth_append split: if_splits)

lemma asMutable_ext: "asMutable vr h v = (out, h') \<Longrightarrow> \<exists>ext. h' = h @ ext"
  by (auto simp: asMutable_def split: if_splits val.splits)

lemma get_frame:
  assumes "lookup h f = Some (Facade w)" and "get vr h f w k = (out, h')"
  shows "frame h h'"
proof -
  have upd: "frame h ((h @ ext)[f := Facade (addOp k e w)])" for ext e
    by (rule frame_trans [OF frame_append frame_update [OF lookup_append [OF assms(1)] client_addOp]])
  show ?thesis
    using assms(2) upd
    by (auto simp: get_def frame_refl frame_append
        split: variant.splits option.splits prod.splits outcome.splits if_splits
        dest!: asMutable_ext)
qed

lemma set_key_frame:
  assumes "lookup h f = Some (Facade w)" and "set_key vr h f w k v = (out, h')"
  shows "frame h h'"
proof -
  have upd: "frame h ((h @ ext)[f := Facade (addOp k e w)])" for ext e
    by (rule frame_trans [OF frame_append frame_update [OF lookup_append [OF assms(1)] client_addOp]])
  show ?thesis
    using assms(2) upd
    by (auto simp: set_key_def frame_refl frame_append Let_def
        split: option.splits prod.splits outcome.splits if_splits
        dest!: asMutable_ext)
qed

lemma get_frame_snd: "lookup h f = Some (Facade w) \<Longrightarrow> frame h (snd (get vr h f w k))"
  by (metis get_frame prod.collapse)

lemma set_key_frame_snd: "lookup h f = Some (Facade w) \<Longrightarrow> frame h (snd (set_key vr h f w k v))"
  by (metis set_key_frame prod.collapse)

lemma trap_set_snd: "snd (trap_set vr h f w k v) = snd (set_key vr h f w k v)"
  by (simp add: trap_set_def split: prod.splits outcome.splits)

text \<open>
  The loop of \<^verbatim>\<open>getValue\<close> writes to the duplicate at \<open>r\<close> and to nothing
  below it, given that the recursive call only appends to the store.
\<close>

lemma forEach_record_take:
  assumes rec0: "\<forall>h v out h'. rec h v = (out, h') \<longrightarrow> (\<exists>ext. h' = h @ ext)"
  shows "r < length h \<Longrightarrow> forEach_record rec c r es m h = (out, h')
         \<Longrightarrow> take r h' = take r h \<and> length h \<le> length h'"
proof (induction es arbitrary: m h)
  case Nil
  then show ?case by simp
next
  case (Cons e es)
  have rec: "\<And>h v out h'. rec h v = (out, h') \<Longrightarrow> \<exists>ext. h' = h @ ext"
    using rec0 by blast
  obtain k earlier opcode d where e: "e = (k, earlier, (opcode, d))"
    by (metis prod.exhaust)
  have step: "take r h' = take r h2 \<and> length h2 \<le> length h'"
    if "forEach_record rec c r es m2 (h2[r := x]) = (out, h')" "r < length h2" for m2 h2 x
    using Cons.IH [of "h2[r := x]" m2] that by simp
  have step2: "take r h' = take r h \<and> length h \<le> length h'"
    if "forEach_record rec c r es m2 ((h @ ext)[r := x]) = (out, h')" for m2 ext x
    using step [OF that] Cons.prems(1) by simp
  show ?case
  proof (cases opcode)
    case DEL
    then show ?thesis
      using Cons.prems step unfolding e
      by (auto split: sum.splits)
  next
    case DEF
    then show ?thesis
      using Cons.prems step unfolding e
      by (auto split: sum.splits option.splits)
  next
    case GET
    then show ?thesis
      using Cons.prems step2 unfolding e
      by (auto simp: Let_def split: sum.splits option.splits prod.splits outcome.splits dest!: rec)
  next
    case SET
    then show ?thesis
      using Cons.prems step2 unfolding e
      by (auto simp: Let_def split: sum.splits option.splits prod.splits outcome.splits dest!: rec)
  qed
qed

text \<open>\<^verbatim>\<open>getValue\<close> changes no cell that exists when it is called: it only allocates.\<close>

lemma getValue_ext: "getValue n vr h v = (out, h') \<Longrightarrow> \<exists>ext. h' = h @ ext"
proof (induction n arbitrary: h v out h')
  case 0
  then show ?case by simp
next
  case (Suc n)
  have loop: "\<exists>ext. h' = h @ ext"
    if "forEach_record (getValue n vr) c (length h) es m (h @ [x]) = (out2, h')" for c es m x out2
  proof -
    have "\<forall>h v out h'. getValue n vr h v = (out, h') \<longrightarrow> (\<exists>ext. h' = h @ ext)"
      using Suc.IH by blast
    from forEach_record_take [OF this _ that]
    have "take (length h) h' = h" and "length h \<le> length h'" by simp_all
    then show ?thesis by (metis append_take_drop_id)
  qed
  show ?case
    using Suc.prems loop
    by (auto simp: Let_def split: if_splits val.splits option.splits cell.splits prod.splits outcome.splits)
qed

lemma step_frame:
  assumes st: "step vr h x = (out, h')"
  shows "frame h h'"
proof (cases x)
  case (ReadProperty f k)
  with st show ?thesis
    by (auto simp: on_facade_def tag_def trap_get_def frame_refl get_frame_snd
          split: option.splits cell.splits)
next
  case (WriteProperty f k v)
  with st show ?thesis
    by (auto simp: on_facade_def tag_def trap_set_snd frame_refl set_key_frame_snd
          split: option.splits cell.splits)
next
  case (DeleteProperty f k)
  with st show ?thesis
    by (auto simp: on_facade_def trap_deleteProperty_def del_def frame_refl frame_same client_addOp
          split: option.splits cell.splits prod.splits if_splits intro!: frame_update)
next
  case (DefineProperty f k v)
  with st show ?thesis
    by (auto simp: on_facade_def tag_def trap_defineProperty_def defineProperty_def frame_refl client_addOp
          split: option.splits cell.splits prod.splits if_splits intro!: frame_update)
next
  case (SetAncestor f p)
  with st show ?thesis
    by (auto simp: on_facade_def trap_setPrototypeOf_def frame_refl
          split: option.splits cell.splits prod.splits if_splits intro!: frame_update)
next
  case (Wrap v)
  with st show ?thesis
    by (cases "asMutable vr h v") (auto simp: tag_def intro: ext_frame asMutable_ext)
next
  case (Unwrap n v)
  with st show ?thesis
    by (cases "getValue n vr h v") (auto simp: tag_def intro: ext_frame getValue_ext)
qed (use st in \<open>auto simp: on_facade_def tag_def frame_refl split: option.splits cell.splits\<close>)

lemma run_frame: "run vr h xs = (outs, h') \<Longrightarrow> frame h h'"
proof (induction xs arbitrary: h outs)
  case Nil
  then show ?case by (simp add: frame_refl)
next
  case (Cons x xs)
  then show ?case
    by (auto split: prod.splits intro: frame_trans step_frame)
qed

text \<open>
  Claim C1. Whatever the store, and whatever the session of Facade operations,
  wraps and unwraps (of either variant, with any recursion bound, whether an
  operation returns, throws or does not come back): every plain container of
  the store, so every origin, holds after the session exactly the properties,
  descriptors, own-key order and ancestor it held before. The only cells that
  change are Facades (the log of a Worker), which stay Facades of the same
  origin; everything else a session writes is in cells allocated by it.
\<close>

theorem origin_never_mutated:
  assumes "run vr h xs = (outs, h')"
  shows "(lookup h a = Some (Plain ob) \<longrightarrow> lookup h' a = Some (Plain ob))
       \<and> (lookup h a = Some (Facade w) \<longrightarrow>
            (\<exists>w'. lookup h' a = Some (Facade w') \<and> client w' = client w))
       \<and> length h \<le> length h'"
  using run_frame [OF assms]
  by (auto simp: frame_def lookup_def split: if_splits cell.splits)

theorem origin_never_mutated_witness:
  "fst (run AsMutable [plain_object [(Name ''a'', VNum 1)]]
          [Wrap (VRef 0), WriteProperty 1 (Name ''a'') (VNum 2), Unwrap 2 (VRef 1)])
     = [Returned (RVal (VRef 1)), Returned (RBool True), Returned (RVal (VRef 2))]
   \<and> lookup (snd (run AsMutable [plain_object [(Name ''a'', VNum 1)]]
          [Wrap (VRef 0), WriteProperty 1 (Name ''a'') (VNum 2), Unwrap 2 (VRef 1)])) 0
     = Some (plain_object [(Name ''a'', VNum 1)])"
proof -
  let ?h = "[plain_object [(Name ''a'', VNum 1)]]"
  let ?xs = "[Wrap (VRef 0), WriteProperty 1 (Name ''a'') (VNum 2), Unwrap 2 (VRef 1)]"
  have r: "run AsMutable ?h ?xs = (fst (run AsMutable ?h ?xs), snd (run AsMutable ?h ?xs))"
    by simp
  have l: "lookup ?h 0 = Some (plain_object [(Name ''a'', VNum 1)])"
    by (simp add: lookup_def)
  have "fst (run AsMutable ?h ?xs)
          = [Returned (RVal (VRef 1)), Returned (RBool True), Returned (RVal (VRef 2))]"
    by code_simp
  with origin_never_mutated [OF r, of 0] l show ?thesis
    by (simp add: plain_object_def)
qed

subsection \<open>The entry function\<close>

text \<open>
  Claim C9. Wrapping a container gives a Facade, and wrapping that Facade
  again gives the same reference and allocates nothing; more generally every
  Facade is returned as it is, with the store unchanged.
\<close>

theorem wrap_idempotent:
  "(\<exists>f h1. asMutable vr h (VRef a) = (Returned f, h1) \<and> isMutable h1 f
            \<and> asMutable vr h1 f = (Returned f, h1))
   \<and> (\<forall>f. isMutable h f \<longrightarrow> asMutable vr h f = (Returned f, h))"
  by (auto simp: asMutable_def isMutable_def isDuplicable_def isPrimitive_def isFunction_def
        lookup_def nth_append split: val.splits option.splits cell.splits)

theorem wrap_idempotent_witness:
  "asMutable AsMutable [plain_object []] (VRef 0)
     = (Returned (VRef 1), [plain_object [], Facade (new_ProxyWorker AsMutable [plain_object []] 0)])
   \<and> asMutable AsMutable [plain_object [], Facade (new_ProxyWorker AsMutable [plain_object []] 0)] (VRef 1)
     = (Returned (VRef 1), [plain_object [], Facade (new_ProxyWorker AsMutable [plain_object []] 0)])"
proof -
  let ?h1 = "[plain_object [], Facade (new_ProxyWorker AsMutable [plain_object []] 0)]"
  have m: "isMutable ?h1 (VRef 1)"
    by (simp add: isMutable_def lookup_def)
  have "asMutable AsMutable [plain_object []] (VRef 0) = (Returned (VRef 1), ?h1)"
    by (simp add: asMutable_def isDuplicable_def isPrimitive_def isFunction_def isMutable_def
          lookup_def plain_object_def)
  with wrap_idempotent [of AsMutable ?h1 1] m show ?thesis
    by simp
qed


subsection \<open>The log\<close>



lemma fst_set_map_set: "fst ` set (map_set k v m) = insert k (fst ` set m)"
proof (induction m)
  case Nil
  then show ?case by simp
next
  case (Cons e m)
  then show ?case by (cases e) (auto simp: insert_commute)
qed

lemma distinct_map_set: "distinct (map fst m) \<Longrightarrow> distinct (map fst (map_set k v m))"
  by (induction m) (auto simp: fst_set_map_set)

lemma distinct_addOp:
  "distinct (map fst (records w)) \<Longrightarrow> distinct (map fst (records (addOp k e w)))"
  by (simp add: addOp_def Let_def distinct_map_set)

subsection \<open>Deleting a key\<close>



subsection \<open>Reading a deleted key\<close>

lemma get_deleted_AsMutable:
  "query w k = Some (DEL, None) \<Longrightarrow> get AsMutable h f w k = (Returned VUndefined, h)"
  by (simp add: get_def)

lemma get_deleted_ImMutable:
  "query w k = Some (DEL, None) \<Longrightarrow> get ImMutable h f w k = (Threw TypeError, h)"
  by (simp add: get_def)

text \<open>
  Claim C5. In as-mutable.ts a key whose last entry is a Delete reads as
  \<^verbatim>\<open>undefined\<close> (\<open>get_deleted_AsMutable\<close>: the line is
  \<^verbatim>\<open>return desc && desc.value\<close>). In im-mutable.ts the line is
  \<^verbatim>\<open>value = desc.value\<close>, and the descriptor of a Delete entry is
  \<^verbatim>\<open>undefined\<close>: for \<^verbatim>\<open>x = {a: 1}\<close>, \<^verbatim>\<open>f = mutable(x)\<close>, \<^verbatim>\<open>delete f.a\<close>, the
  read \<^verbatim>\<open>f.a\<close> throws a TypeError, where the same session of as-mutable.ts
  reads \<^verbatim>\<open>undefined\<close>.
\<close>

theorem read_deleted_ImMutable_throws:
  "fst (run ImMutable one_key_heap
          [Wrap (VRef 0), DeleteProperty 1 (Name ''a''), ReadProperty 1 (Name ''a'')])
     = [Returned (RVal (VRef 1)), Returned (RBool True), Threw TypeError]
   \<and> fst (run AsMutable one_key_heap
          [Wrap (VRef 0), DeleteProperty 1 (Name ''a''), ReadProperty 1 (Name ''a'')])
     = [Returned (RVal (VRef 1)), Returned (RBool True), Returned (RVal VUndefined)]"
  by code_simp

subsection \<open>Defining a property\<close>

lemma trap_defineProperty_cases:
  "trap_defineProperty h f w k d =
     (case getOwnPropertyDescriptor h w k of
        None \<Rightarrow> (Threw TypeError, h)
      | Some oldDesc \<Rightarrow>
          if configurable oldDesc then (Returned True, h[f := Facade (addOp k (DEF, Some d) w)])
          else (Returned False, h))"
  by (simp add: trap_defineProperty_def defineProperty_def split: option.splits)

text \<open>
  Claim C6. The trap reads \<^verbatim>\<open>oldDesc.configurable\<close> without looking whether
  there is an \<^verbatim>\<open>oldDesc\<close> (\<open>trap_defineProperty_cases\<close>; \<^verbatim>\<open>del\<close> does look:
  \<^verbatim>\<open>if (!desc) return true\<close>). For \<^verbatim>\<open>f = asMutable({})\<close>, defining the new key
  \<^verbatim>\<open>a\<close> on \<^verbatim>\<open>f\<close> throws a TypeError, in both variants; and for
  \<^verbatim>\<open>f = asMutable({a: 1})\<close>, defining \<^verbatim>\<open>a\<close> after deleting it throws as well.
\<close>

theorem define_absent_key_throws:
  "fst (run AsMutable [plain_object []]
          [Wrap (VRef 0), DefineProperty 1 (Name ''a'') (full_desc (VNum 1))])
     = [Returned (RVal (VRef 1)), Threw TypeError]
   \<and> fst (run ImMutable [plain_object []]
          [Wrap (VRef 0), DefineProperty 1 (Name ''a'') (full_desc (VNum 1))])
     = [Returned (RVal (VRef 1)), Threw TypeError]
   \<and> fst (run AsMutable one_key_heap
          [Wrap (VRef 0), DeleteProperty 1 (Name ''a''),
           DefineProperty 1 (Name ''a'') (full_desc (VNum 2))])
     = [Returned (RVal (VRef 1)), Returned (RBool True), Threw TypeError]"
  by code_simp

subsection \<open>Existence of a key\<close>

lemma has_AsMutable:
  assumes "proto w = Some (ChainObj ps rest)"
  shows "has AsMutable h w k =
     Returned (case query w k of
                 None \<Rightarrow> k \<in> set (own_keys (plain_at h (client w))) \<or> chain_has (ChainObj ps rest) k
               | Some (opcode, d) \<Rightarrow> if opcode = DEL then chain_has (ChainObj ps rest) k else True)"
  using assms
  by (auto simp: has_def reflect_has_proto_def own_desc_def own_keys_def map_of_eq_None_iff
       split: option.splits)

lemma has_AsMutable_no_ancestor:
  assumes "proto w = None \<or> proto w = Some ChainEnd"
  shows "has AsMutable h w k
           = (case query w k of
                None \<Rightarrow> Threw TypeError
              | Some (opcode, d) \<Rightarrow> if opcode = DEL then Threw TypeError else Returned True)"
  using assms
  by (auto simp: has_def reflect_has_proto_def split: option.splits)

lemma has_ImMutable:
  "has ImMutable h w k =
     Returned (case query w k of
                 None \<Rightarrow> k \<in> set (own_keys (plain_at h (client w)))
                           \<or> chain_has (ob_proto (plain_at h (client w))) k
               | Some (opcode, d) \<Rightarrow>
                   if opcode = DEL
                   then chain_has (ob_proto (plain_at h (client w))) k
                        \<and> k \<notin> set (own_keys (plain_at h (client w)))
                   else True)"
  by (auto simp: has_def obj_has_def own_desc_def own_keys_def map_of_eq_None_iff
       split: option.splits)

text \<open>
  Claim C8. as-mutable.ts answers as the claim says whenever the Worker's
  ancestor is an object (\<open>has_AsMutable\<close>), and throws a TypeError for an
  unlogged or deleted key when it is not (\<open>has_AsMutable_no_ancestor\<close>).
  im-mutable.ts answers a deleted key with "the client has the key and not as
  an own key" (\<open>has_ImMutable\<close>), which is false for a key that the origin
  holds and an ancestor holds too: for \<^verbatim>\<open>x = {toString: 1}\<close>,
  \<^verbatim>\<open>f = mutable(x)\<close>, \<^verbatim>\<open>delete f.toString\<close>, the test \<^verbatim>\<open>'toString' in f\<close> is
  false although the ancestor of \<^verbatim>\<open>x\<close> has \<^verbatim>\<open>toString\<close>; the same session of
  as-mutable.ts answers true.
\<close>

theorem has_deleted_ImMutable_misses_ancestor:
  "fst (run ImMutable [plain_object [(Name ''toString'', VNum 1)]]
          [Wrap (VRef 0), DeleteProperty 1 (Name ''toString''), HasProperty 1 (Name ''toString'')])
     = [Returned (RVal (VRef 1)), Returned (RBool True), Returned (RBool False)]
   \<and> chain_has (ob_proto (plain_at [plain_object [(Name ''toString'', VNum 1)]] 0)) (Name ''toString'')
   \<and> fst (run AsMutable [plain_object [(Name ''toString'', VNum 1)]]
          [Wrap (VRef 0), DeleteProperty 1 (Name ''toString''), HasProperty 1 (Name ''toString'')])
     = [Returned (RVal (VRef 1)), Returned (RBool True), Returned (RBool True)]"
  by code_simp

subsection \<open>Listing the own keys\<close>

lemma foldl_set_add:
  "distinct ks \<Longrightarrow> set acc \<inter> set ks = {} \<Longrightarrow> foldl (\<lambda>keys k. set_add k keys) acc ks = acc @ ks"
  by (induction ks arbitrary: acc) (auto simp: set_add_def)

lemma ownKeys_loop:
  fixes rs :: "(key \<times> op_entry list \<times> op_entry) list"
  assumes "distinct (map fst rs)" and "distinct ks"
  shows "foldl (\<lambda>keys (k, earlier, lastOp).
                  if fst lastOp = DEL then set_delete k keys else set_add k keys) ks rs
         = filter (\<lambda>k. map_option (fst \<circ> snd) (map_of rs k) \<noteq> Some DEL) ks
           @ filter (\<lambda>k. k \<notin> set ks \<and> map_option (fst \<circ> snd) (map_of rs k) \<noteq> Some DEL) (map fst rs)"
  using assms
proof (induction rs arbitrary: ks)
  case Nil
  then show ?case by simp
next
  case (Cons e rs)
  obtain k earlier lastOp where e: "e = (k, earlier, lastOp)"
    by (metis prod.exhaust)
  from Cons.prems have k: "k \<notin> fst ` set rs" and d: "distinct (map fst rs)"
    by (auto simp: e)
  have nk: "map_of rs k = None"
    using k by (simp add: map_of_eq_None_iff)
  define P' where "P' = (\<lambda>x. map_option (fst \<circ> snd) (map_of rs x) \<noteq> Some DEL)"
  define P where "P = (\<lambda>x. map_option (fst \<circ> snd) (map_of (e # rs) x) \<noteq> Some DEL)"
  have P: "P x = (if x = k then fst lastOp \<noteq> DEL else P' x)" for x
    by (cases lastOp) (simp add: e P_def P'_def)
  have nk': "P' k"
    by (simp add: P'_def nk)
  have IH: "foldl (\<lambda>keys (k, earlier, lastOp).
                  if fst lastOp = DEL then set_delete k keys else set_add k keys) ks' rs
         = filter P' ks' @ filter (\<lambda>k. k \<notin> set ks' \<and> P' k) (map fst rs)"
    if "distinct ks'" for ks'
    using Cons.IH [OF d that] by (simp add: P'_def)
  have goal: "?case = (foldl (\<lambda>keys (k, earlier, lastOp).
                  if fst lastOp = DEL then set_delete k keys else set_add k keys) ks (e # rs)
         = filter P ks @ filter (\<lambda>k. k \<notin> set ks \<and> P k) (map fst (e # rs)))"
    by (simp add: P_def)
  show ?case
  proof (cases "fst lastOp = DEL")
    case True
    have dk: "distinct (removeAll k ks)"
      using Cons.prems(2) by (simp add: distinct_removeAll)
    have 1: "filter P ks = filter P' (removeAll k ks)"
      unfolding removeAll_filter_not_eq filter_filter using True by (intro filter_cong) (auto simp: P)
    have 2: "filter (\<lambda>x. x \<notin> set ks \<and> P x) (map fst (e # rs))
           = filter (\<lambda>x. x \<notin> set (removeAll k ks) \<and> P' x) (map fst rs)"
      using True k by (auto simp: P e intro!: filter_cong)
    show ?thesis
      unfolding goal 1 2 using IH [OF dk] True by (simp add: e set_delete_def)
  next
    case False
    show ?thesis
    proof (cases "k \<in> set ks")
      case True
      have 1: "filter P ks = filter P' ks"
        using False nk' by (intro filter_cong) (auto simp: P)
      have 2: "filter (\<lambda>x. x \<notin> set ks \<and> P x) (map fst (e # rs))
             = filter (\<lambda>x. x \<notin> set ks \<and> P' x) (map fst rs)"
        using True k by (auto simp: P e intro!: filter_cong)
      show ?thesis
        unfolding goal 1 2 using IH [OF Cons.prems(2)] False True by (simp add: e set_add_def)
    next
      case nin: False
      have dk: "distinct (ks @ [k])"
        using Cons.prems(2) nin by simp
      have 1: "filter P ks = filter P' ks"
        using nin nk' by (intro filter_cong) (auto simp: P)
      have 2: "filter (\<lambda>x. x \<notin> set ks \<and> P x) (map fst (e # rs))
             = k # filter (\<lambda>x. x \<notin> set (ks @ [k]) \<and> P' x) (map fst rs)"
        using False nin k by (auto simp: P e intro!: filter_cong)
      show ?thesis
        unfolding goal 1 2 using IH [OF dk] False nin nk' by (simp add: e set_add_def)
    qed
  qed
qed

lemma ownKeys_AsMutable:
  assumes "distinct (own_keys (plain_at h (client w)))" and "distinct (map fst (records w))"
  shows "ownKeys AsMutable h w
           = filter (\<lambda>k. \<not> deleted w k) (own_keys (plain_at h (client w)))
             @ filter (\<lambda>k. k \<notin> set (own_keys (plain_at h (client w))) \<and> \<not> deleted w k)
                 (map fst (records w))"
    and "distinct (ownKeys AsMutable h w)"
proof -
  have del: "(\<not> deleted w k) = (map_option (fst \<circ> snd) (map_of (records w) k) \<noteq> Some DEL)" for k
    by (auto simp: deleted_def query_def split: option.splits)
  show eq: "ownKeys AsMutable h w
           = filter (\<lambda>k. \<not> deleted w k) (own_keys (plain_at h (client w)))
             @ filter (\<lambda>k. k \<notin> set (own_keys (plain_at h (client w))) \<and> \<not> deleted w k)
                 (map fst (records w))"
    unfolding del
    using foldl_set_add [OF assms(1), of "[]"] ownKeys_loop [OF assms(2) assms(1)]
    by (simp add: ownKeys_def Let_def)
  show "distinct (ownKeys AsMutable h w)"
    unfolding eq using assms by (auto simp: distinct_filter)
qed


text \<open>
  Claim C4. as-mutable.ts collects the keys in a \<^verbatim>\<open>Set\<close> and lists them as
  the claim says (\<open>ownKeys_AsMutable\<close>). im-mutable.ts pushes onto an array:
  first every own key of the origin whose last entry is not a Delete, then
  every logged key whose last entry is not a Delete, so a key of the origin that
  was written or read through the Facade is listed twice. For \<^verbatim>\<open>x = {a: 1}\<close>,
  \<^verbatim>\<open>f = mutable(x)\<close>, \<^verbatim>\<open>f.a = 2\<close> the list is \<^verbatim>\<open>['a', 'a']\<close>; the same session
  of as-mutable.ts lists \<^verbatim>\<open>['a']\<close>.
\<close>

theorem ownKeys_ImMutable_duplicate:
  "fst (run ImMutable one_key_heap
          [Wrap (VRef 0), WriteProperty 1 (Name ''a'') (VNum 2), ListOwnKeys 1])
     = [Returned (RVal (VRef 1)), Returned (RBool True), Returned (RKeys [Name ''a'', Name ''a''])]
   \<and> fst (run AsMutable one_key_heap
          [Wrap (VRef 0), WriteProperty 1 (Name ''a'') (VNum 2), ListOwnKeys 1])
     = [Returned (RVal (VRef 1)), Returned (RBool True), Returned (RKeys [Name ''a''])]"
  by code_simp


subsection \<open>Structural sharing on the example\<close>

text \<open>
  Claim C3. With \<^verbatim>\<open>x = {a:{v:1}, b:{v:2}}\<close> and \<^verbatim>\<open>f = wrap(x)\<close>, in both
  variants: after reading \<^verbatim>\<open>f.a\<close> and writing nothing, \<^verbatim>\<open>unwrap(f)\<close> is the
  reference \<^verbatim>\<open>x\<close> (address 2); after \<^verbatim>\<open>f.a.v = 5\<close>, \<^verbatim>\<open>unwrap(f)\<close> is a new
  container (address 5) whose \<^verbatim>\<open>b\<close> is the reference \<^verbatim>\<open>x.b\<close> and whose \<^verbatim>\<open>a\<close> is
  a new container (address 6) with \<^verbatim>\<open>v\<close> equal to 5, not the reference
  \<^verbatim>\<open>x.a\<close>, which still has \<^verbatim>\<open>v\<close> equal to 1.
\<close>

theorem structural_sharing:
  "fst (run AsMutable sharing_heap read_only_session)
     = [Returned (RVal (VRef 3)), Returned (RVal (VRef 4)), Returned (RVal (VRef 2))]
   \<and> fst (run ImMutable sharing_heap read_only_session)
     = [Returned (RVal (VRef 3)), Returned (RVal (VRef 4)), Returned (RVal (VRef 2))]
   \<and> shares_b_not_a (run AsMutable sharing_heap overwrite_session)
   \<and> shares_b_not_a (run ImMutable sharing_heap overwrite_session)"
  by code_simp


subsection \<open>Renaming the addresses that a run allocates\<close>

lemma sh_inj: "(sh L e u = sh L e v) = (u = v)"
  by (auto simp: sh_def split: val.splits if_splits)

lemma sh_opt_inj: "(map_option (sh L e) x = map_option (sh L e) y) = (x = y)"
  by (cases x; cases y; simp add: sh_inj)

lemma sh_ok: "val_ok L v \<Longrightarrow> sh L e v = v"
  by (auto simp: sh_def val_ok_def split: val.splits)

lemma sh_simps [simp]:
  "sh L e VUndefined = VUndefined" "sh L e VNull = VNull" "sh L e (VBool b) = VBool b"
  "sh L e (VNum n) = VNum n" "sh L e VNaN = VNaN" "sh L e (VStr s) = VStr s"
  "sh L e (VSymbol y) = VSymbol y" "sh L e (VBigInt n) = VBigInt n" "sh L e (VFun g) = VFun g"
  by (simp_all add: sh_def)

lemma map_of_sh_props: "map_of (sh_props L e ps) k = map_option (sh_prop L e) (map_of ps k)"
  by (induction ps) (auto simp: sh_props_def)

lemma prop_attrs_sh [simp]:
  "prop_configurable (sh_prop L e p) = prop_configurable p"
  "prop_enumerable (sh_prop L e p) = prop_enumerable p"
  "prop_value (sh_prop L e p) = sh L e (prop_value p)"
  by (cases p; auto split: option.splits)+

lemma remove_key_sh: "remove_key k (sh_props L e ps) = sh_props L e (remove_key k ps)"
  by (induction ps) (auto simp: sh_props_def remove_key_def)

lemma map_set_sh: "map_set k (sh_prop L e p) (sh_props L e ps) = sh_props L e (map_set k p ps)"
  by (induction ps) (auto simp: sh_props_def)

lemma sh_obj_simps [simp]:
  "ob_props (sh_obj L e ob) = sh_props L e (ob_props ob)"
  "ob_proto (sh_obj L e ob) = ob_proto ob"
  "ob_array (sh_obj L e ob) = ob_array ob"
  by (simp_all add: sh_obj_def)

lemma sh_obj_update: "sh_obj L e (ob\<lparr>ob_props := ps\<rparr>) = (sh_obj L e ob)\<lparr>ob_props := sh_props L e ps\<rparr>"
  by (simp add: sh_obj_def)

lemma delete_own_sh:
  "delete_own k (sh_obj L e ob) = map_sum id (sh_obj L e) (delete_own k ob)"
  by (auto simp: delete_own_def map_of_sh_props remove_key_sh sh_obj_def split: option.splits)

lemma sh_desc_simps [simp]:
  "d_value (sh_desc L e d) = map_option (sh L e) (d_value d)"
  "d_get (sh_desc L e d) = map_option (map_option (sh L e)) (d_get d)"
  "d_set (sh_desc L e d) = d_set d"
  "d_writable (sh_desc L e d) = d_writable d"
  "d_enumerable (sh_desc L e d) = d_enumerable d"
  "d_configurable (sh_desc L e d) = d_configurable d"
  by (simp_all add: sh_desc_def)

lemma desc_kind_sh [simp]:
  "is_accessor_desc (sh_desc L e d) = is_accessor_desc d"
  "is_data_desc (sh_desc L e d) = is_data_desc d"
  by (simp_all add: is_accessor_desc_def is_data_desc_def)

lemma apply_desc_sh:
  "apply_desc (sh_desc L e d) (map_option (sh_prop L e) cur)
     = map_sum id (sh_prop L e) (apply_desc d cur)"
proof (cases cur)
  case None
  then show ?thesis
    by (auto simp: apply_desc_def or_else_def split: option.splits)
next
  case (Some p)
  then show ?thesis
    by (cases p) (auto simp: apply_desc_def or_else_def sh_inj sh_opt_inj split: option.splits)
qed

lemma define_ordinary_sh:
  "define_ordinary k (sh_desc L e d) (sh_obj L e ob)
     = map_sum id (sh_obj L e) (define_ordinary k d ob)"
  using apply_desc_sh [of L e d "map_of (ob_props ob) k"]
  by (auto simp: define_ordinary_def map_of_sh_props map_set_sh sh_obj_def split: sum.splits)

lemma array_length_sh [simp]: "array_length (sh_obj L e ob) = array_length ob"
  by (cases "map_of (ob_props ob) (Name ''length'')")
     (auto simp: array_length_def map_of_sh_props sh_def split: property.splits val.splits)

lemma length_writable_sh [simp]: "length_writable (sh_obj L e ob) = length_writable ob"
  by (cases "map_of (ob_props ob) (Name ''length'')")
     (auto simp: length_writable_def map_of_sh_props split: property.splits)

lemma to_length_sh [simp]: "to_length (sh L e v) = to_length v"
  by (cases v) (auto simp: to_length_def sh_def)

lemma value_of_sh [simp]: "value_of (sh_desc L e d) = sh L e (value_of d)"
  by (auto simp: value_of_def split: option.splits)

lemma sh_desc_update_value:
  "(sh_desc L e d)\<lparr>d_value := Some (VNum n)\<rparr> = sh_desc L e (d\<lparr>d_value := Some (VNum n)\<rparr>)"
  by (simp add: sh_desc_def)

lemma list_ex_sh:
  "list_ex (\<lambda>(k', p). is_element_from n k' \<and> \<not> prop_configurable p) (sh_props L e ps)
     = list_ex (\<lambda>(k', p). is_element_from n k' \<and> \<not> prop_configurable p) ps"
  by (induction ps) (auto simp: sh_props_def)

lemma filter_sh:
  "filter (\<lambda>(k', p). \<not> is_element_from n k') (sh_props L e ps)
     = sh_props L e (filter (\<lambda>(k', p). \<not> is_element_from n k') ps)"
  by (induction ps) (auto simp: sh_props_def)

lemma define_length_sh:
  "define_ordinary k \<lparr>d_value = Some (VNum n), d_get = None, d_set = None,
       d_writable = None, d_enumerable = None, d_configurable = None\<rparr> (sh_obj L e ob)
   = map_sum id (sh_obj L e)
       (define_ordinary k \<lparr>d_value = Some (VNum n), d_get = None, d_set = None,
          d_writable = None, d_enumerable = None, d_configurable = None\<rparr> ob)"
  using define_ordinary_sh [of k L e "\<lparr>d_value = Some (VNum n), d_get = None, d_set = None,
       d_writable = None, d_enumerable = None, d_configurable = None\<rparr>" ob]
  by (simp add: sh_desc_def)

lemma define_own_sh:
  "define_own k (sh_desc L e d) (sh_obj L e ob) = map_sum id (sh_obj L e) (define_own k d ob)"
proof (cases "ob_array ob")
  case False
  then show ?thesis by (simp add: define_own_def define_ordinary_sh)
next
  case True
  show ?thesis
  proof (cases k)
    case (Idx i)
    show ?thesis
    proof (cases "define_ordinary k d ob")
      case (Inl err)
      with True Idx show ?thesis
        by (simp add: define_own_def define_ordinary_sh)
    next
      case (Inr ob')
      with True Idx show ?thesis
        by (simp add: define_own_def define_ordinary_sh define_length_sh)
    qed
  next
    case (Name n)
    show ?thesis
    proof (cases "n = ''length'' \<and> d_value d \<noteq> None")
      case False
      with True Name show ?thesis
        by (auto simp: define_own_def define_ordinary_sh)
    next
      case len: True
      show ?thesis
      proof (cases "to_length (value_of d)")
        case (Inl err)
        with True Name len show ?thesis
          by (auto simp: define_own_def)
      next
        case (Inr newLen)
        have d: "define_ordinary k ((sh_desc L e d)\<lparr>d_value := Some (VNum (int newLen))\<rparr>) (sh_obj L e ob)
                 = map_sum id (sh_obj L e) (define_ordinary k (d\<lparr>d_value := Some (VNum (int newLen))\<rparr>) ob)"
          unfolding sh_desc_update_value by (rule define_ordinary_sh)
        show ?thesis
        proof (cases "define_ordinary k (d\<lparr>d_value := Some (VNum (int newLen))\<rparr>) ob")
          case (Inl err)
          with True Name len Inr d show ?thesis
            by (auto simp: define_own_def)
        next
          case ob': (Inr ob')
          with True Name len Inr d show ?thesis
            by (auto simp: define_own_def list_ex_sh filter_sh sh_obj_update)
        qed
      qed
    qed
  next
    case (Sym s)
    with True show ?thesis by (simp add: define_own_def define_ordinary_sh)
  qed
qed

lemma assign_sh:
  "assign k (sh L e v) (sh_obj L e ob) = map_sum id (sh_obj L e) (assign k v ob)"
proof -
  have c: "define_own k \<lparr>d_value = Some (sh L e v), d_get = None, d_set = None,
                          d_writable = Some True, d_enumerable = Some True,
                          d_configurable = Some True\<rparr> (sh_obj L e ob)
           = map_sum id (sh_obj L e)
               (define_own k \<lparr>d_value = Some v, d_get = None, d_set = None,
                          d_writable = Some True, d_enumerable = Some True,
                          d_configurable = Some True\<rparr> ob)"
    using define_own_sh [of k L e "\<lparr>d_value = Some v, d_get = None, d_set = None,
                          d_writable = Some True, d_enumerable = Some True,
                          d_configurable = Some True\<rparr>" ob]
    by (simp add: sh_desc_def)
  have u: "define_own k \<lparr>d_value = Some (sh L e v), d_get = None, d_set = None,
                          d_writable = None, d_enumerable = None,
                          d_configurable = None\<rparr> (sh_obj L e ob)
           = map_sum id (sh_obj L e)
               (define_own k \<lparr>d_value = Some v, d_get = None, d_set = None,
                          d_writable = None, d_enumerable = None,
                          d_configurable = None\<rparr> ob)"
    using define_own_sh [of k L e "\<lparr>d_value = Some v, d_get = None, d_set = None,
                          d_writable = None, d_enumerable = None,
                          d_configurable = None\<rparr>" ob]
    by (simp add: sh_desc_def)
  show ?thesis
    unfolding assign_def Let_def c u
    by (auto simp: map_of_sh_props split: option.splits property.splits)
qed

lemma lookup_below: "a < length h \<Longrightarrow> lookup (h @ X) a = lookup h a"
  by (simp add: lookup_def nth_append)

lemma plain_at_below: "a < length h \<Longrightarrow> plain_at (h @ X) a = plain_at h a"
  by (simp add: plain_at_def lookup_below)

lemma isMutable_below: "val_ok (length h) v \<Longrightarrow> isMutable (h @ X) v = isMutable h v"
  by (auto simp: isMutable_def val_ok_def lookup_below split: val.splits)

lemma sh_obj_empty [simp]: "sh_obj L e empty_obj = empty_obj"
  by (simp add: sh_obj_def empty_obj_def sh_props_def)

lemma plain_at_shift:
  "plain_at (h @ ext @ map (sh_cell L e) X) (length h + length ext + i)
     = sh_obj L e (plain_at (h @ X) (length h + i))"
proof (cases "i < length X")
  case True
  then show ?thesis
    by (cases "X ! i") (simp_all add: plain_at_def lookup_def nth_append)
next
  case False
  then show ?thesis
    by (simp add: plain_at_def lookup_def)
qed

lemma update_above: "(h @ X)[length h + i := c] = h @ X[i := c]"
  by (simp add: list_update_append)

lemma update_shift:
  "(h @ ext @ map f X)[length h + length ext + i := f c] = h @ ext @ map f (X[i := c])"
  by (simp add: list_update_append map_update)

lemma props_ok_sh: "props_ok L ps \<Longrightarrow> sh_props L e ps = ps"
proof (induction ps)
  case Nil
  then show ?case by (simp add: sh_props_def)
next
  case (Cons x ps)
  obtain k p where x: "x = (k, p)" by (cases x)
  from Cons have "prop_ok L p" and "sh_props L e ps = ps"
    by (simp_all add: x props_ok_def)
  then show ?case
    by (cases p) (auto simp: x sh_props_def sh_ok split: option.splits)
qed

lemma desc_ok_sh: "desc_ok L d \<Longrightarrow> sh_desc L e d = d"
  by (cases "d_get d")
     (auto simp: desc_ok_def sh_desc_def sh_ok split: option.splits)

lemma props_ok_lookup: "props_ok L ps \<Longrightarrow> map_of ps k = Some p \<Longrightarrow> prop_ok L p"
  by (induction ps) (auto simp: props_ok_def split: if_splits)

lemma prop_ok_value: "prop_ok L p \<Longrightarrow> val_ok L (prop_value p)"
  by (cases p) (auto simp: val_ok_def split: option.splits)

lemma chain_ok_get: "chain_ok L c \<Longrightarrow> val_ok L (chain_get c k)"
proof (induction c)
  case ChainEnd
  then show ?case by (simp add: val_ok_def)
next
  case (ChainObj ps rest)
  then show ?case
    using props_ok_lookup [of L ps k] prop_ok_value [of L]
    by (auto split: option.splits)
qed

lemma obj_ok_get: "obj_ok L ob \<Longrightarrow> val_ok L (obj_get ob k)"
  using props_ok_lookup [of L "ob_props ob" k] prop_ok_value [of L]
  by (auto simp: obj_ok_def obj_get_def chain_ok_get split: option.splits)

lemma strict_eq_sh: "val_ok L old \<Longrightarrow> strict_eq old (sh L e nv) = strict_eq old nv"
  using sh_inj [of L e old nv] sh_ok [of L old e]
  by (cases old) auto

lemma closed_cell: "closed h \<Longrightarrow> a < length h \<Longrightarrow> cell_ok (length h) (h ! a)"
  by (simp add: closed_def list_all_length)

lemma entry_value_ok: "entry_ok L (opcode, Some d) \<Longrightarrow> val_ok L (value_of d)"
  by (auto simp: entry_ok_def desc_ok_def value_of_def val_ok_def split: option.splits)

lemma forEach_record_shift:
  fixes h ext :: heap
  assumes rec: "\<And>X v out H'. val_ok (length h) v \<Longrightarrow> rec (h @ X) v = (out, H') \<Longrightarrow>
            \<exists>Y. H' = h @ X @ Y
               \<and> rec (h @ ext @ map (sh_cell (length h) (length ext)) X) v
                   = (map_outcome (sh (length h) (length ext)) out,
                      h @ ext @ map (sh_cell (length h) (length ext)) (X @ Y))"
    and c: "c < length h" and cok: "obj_ok (length h) (plain_at h c)"
  shows "list_all (\<lambda>(k, earlier, lastOp). entry_ok (length h) lastOp) es \<Longrightarrow>
         forEach_record rec c (length h + i) es m (h @ X) = (out, H') \<Longrightarrow>
         \<exists>X'. H' = h @ X'
             \<and> forEach_record rec c (length h + length ext + i) es m
                  (h @ ext @ map (sh_cell (length h) (length ext)) X)
                 = (out, h @ ext @ map (sh_cell (length h) (length ext)) X')"
proof (induction es arbitrary: m X)
  case Nil
  then show ?case by auto
next
  case (Cons en es)
  let ?L = "length h" and ?E = "length ext"
  let ?shc = "sh_cell ?L ?E"
  obtain k earlier opcode d where en: "en = (k, earlier, (opcode, d))"
    by (metis prod.exhaust)
  from Cons.prems(1) have es: "list_all (\<lambda>(k, earlier, lastOp). entry_ok ?L lastOp) es"
    and eok: "entry_ok ?L (opcode, d)"
    by (simp_all add: en)
  note IH = Cons.IH [OF es]
  have pa: "plain_at (h @ ext @ map ?shc X) (?L + ?E + i) = sh_obj ?L ?E (plain_at (h @ X) (?L + i))" for X
    by (rule plain_at_shift)
  have upd: "\<exists>X'. H' = h @ X'
             \<and> forEach_record rec c (?L + ?E + i) es m2
                  ((h @ ext @ map ?shc X2)[?L + ?E + i := Plain (sh_obj ?L ?E ob)])
                 = (out, h @ ext @ map ?shc X')"
    if "forEach_record rec c (?L + i) es m2 ((h @ X2)[?L + i := Plain ob]) = (out, H')" for m2 X2 ob
  proof -
    have "(h @ ext @ map ?shc X2)[?L + ?E + i := Plain (sh_obj ?L ?E ob)]
            = h @ ext @ map ?shc (X2[i := Plain ob])"
      using update_shift [of h ext ?shc X2 i "Plain ob"] by simp
    then show ?thesis
      using IH [of m2 "X2[i := Plain ob]"] that by (simp add: update_above)
  qed
  show ?case
  proof (cases "opcode = DEL")
    case True
    show ?thesis
    proof (cases "delete_own k (plain_at (h @ X) (?L + i))")
      case (Inl err)
      with True Cons.prems(2) show ?thesis
        by (auto simp: en pa delete_own_sh)
    next
      case (Inr ob)
      with True Cons.prems(2) upd [of True X ob] show ?thesis
        by (auto simp: en pa delete_own_sh)
    qed
  next
    case notdel: False
    show ?thesis
    proof (cases d)
      case None
      with Cons.prems(2) notdel show ?thesis
        by (cases opcode) (auto simp: en)
    next
      case (Some d')
      from eok Some have dok: "sh_desc ?L ?E d' = d'" and vok: "val_ok ?L (value_of d')"
        by (auto simp: entry_ok_def desc_ok_sh intro: entry_value_ok [of ?L opcode])
      show ?thesis
      proof (cases "opcode = DEF")
        case True
        have df: "define_own k d' (sh_obj ?L ?E ob) = map_sum id (sh_obj ?L ?E) (define_own k d' ob)" for ob
          using define_own_sh [of k ?L ?E d' ob] by (simp add: dok)
        show ?thesis
        proof (cases "define_own k d' (plain_at (h @ X) (?L + i))")
          case (Inl err)
          with True Some Cons.prems(2) show ?thesis
            by (auto simp: en pa df)
        next
          case (Inr ob)
          with True Some Cons.prems(2) upd [of True X ob] show ?thesis
            by (auto simp: en pa df)
        qed
      next
        case False
        obtain out1 H1 where r1: "rec (h @ X) (value_of d') = (out1, H1)"
          by (cases "rec (h @ X) (value_of d')")
        from rec [OF vok r1] obtain Y where H1: "H1 = h @ X @ Y"
          and r2: "rec (h @ ext @ map ?shc X) (value_of d')
                     = (map_outcome (sh ?L ?E) out1, h @ ext @ map ?shc (X @ Y))"
          by blast
        have old: "val_ok ?L (obj_get (plain_at (h @ X) c) k)"
          using c cok by (simp add: plain_at_below obj_ok_get)
        have oldeq: "obj_get (plain_at (h @ ext @ map ?shc X) c) k = obj_get (plain_at (h @ X) c) k"
          using c by (simp add: plain_at_below)
        have body: "forEach_record rec c r (en # es) m H =
           (case rec H (value_of d') of
                  (Returned newValue, h') \<Rightarrow>
                    (case assign k newValue (plain_at h' r) of
                       Inl e \<Rightarrow> (Threw e, h')
                     | Inr ob \<Rightarrow>
                         forEach_record rec c r es
                           (m \<or> \<not> strict_eq (obj_get (plain_at H c) k) newValue) (h'[r := Plain ob]))
                | (Threw e, h') \<Rightarrow> (Threw e, h')
                | (Diverged, h') \<Rightarrow> (Diverged, h'))" for r H
          using notdel False Some by (cases opcode) (simp_all add: en Let_def)
        have pa2: "plain_at (h @ ext @ map ?shc X @ map ?shc Y) (?L + ?E + i)
                     = sh_obj ?L ?E (plain_at (h @ X @ Y) (?L + i))"
          using pa [of "X @ Y"] by simp
        have upd2: "\<exists>X'. H' = h @ X'
             \<and> forEach_record rec c (?L + ?E + i) es m2
                  ((h @ ext @ map ?shc X @ map ?shc Y)[?L + ?E + i := Plain (sh_obj ?L ?E ob)])
                 = (out, h @ ext @ map ?shc X')"
          if "forEach_record rec c (?L + i) es m2 ((h @ X @ Y)[?L + i := Plain ob]) = (out, H')" for m2 ob
          using upd [of m2 "X @ Y" ob] that by simp
        show ?thesis
        proof (cases out1)
          case (Returned nv)
          let ?X1 = "X @ Y"
          show ?thesis
          proof (cases "assign k nv (plain_at (h @ ?X1) (?L + i))")
            case (Inl err)
            with Cons.prems(2) Returned show ?thesis
              unfolding body r1 r2 H1
              by (auto simp: pa2 assign_sh)
          next
            case (Inr ob)
            with Cons.prems(2) Returned 
              upd2 [of "m \<or> \<not> strict_eq (obj_get (plain_at (h @ X) c) k) nv" ob]
            show ?thesis
              unfolding body r1 r2 H1 oldeq
              by (auto simp: pa2 assign_sh strict_eq_sh [OF old])
          qed
        next
          case (Threw err)
          with Cons.prems(2) show ?thesis
            unfolding body r1 r2 H1 by auto
        next
          case Diverged
          with Cons.prems(2) show ?thesis
            unfolding body r1 r2 H1 by auto
        qed
      qed
    qed
  qed
qed

lemma props_ok_spread_object: "obj_ok L ob \<Longrightarrow> props_ok L (ob_props (spread_object ob))"
proof -
  assume "obj_ok L ob"
  then have "props_ok L (ob_props ob)" by (simp add: obj_ok_def)
  then have "props_ok L (map (\<lambda>(k, p). (k, Data (prop_value p) True True True))
                     (filter (\<lambda>(k, p). prop_enumerable p) ps))"
    if "props_ok L ps" for ps
    using that by (induction ps) (auto simp: props_ok_def prop_ok_value)
  with \<open>props_ok L (ob_props ob)\<close> show ?thesis
    by (simp add: spread_object_def)
qed

lemma val_ok_simps [simp]:
  "val_ok L VUndefined" "val_ok L VNull" "val_ok L (VBool b)" "val_ok L (VNum n)" "val_ok L VNaN"
  "val_ok L (VStr s)" "val_ok L (VSymbol y)" "val_ok L (VBigInt n)" "val_ok L (VFun g)"
  "val_ok L (VRef a) = (a < L)"
  by (simp_all add: val_ok_def)

lemma props_ok_spread_array: "obj_ok L ob \<Longrightarrow> props_ok L (ob_props (spread_array ob))"
  by (auto simp: spread_array_def props_ok_def list_all_iff obj_ok_get)

lemma sh_obj_set_proto: "sh_obj L e (set_proto p ob) = set_proto p (sh_obj L e ob)"
  by (auto simp: set_proto_def sh_obj_def split: option.splits)

lemma sh_obj_ok: "props_ok L (ob_props ob) \<Longrightarrow> sh_obj L e ob = ob"
  by (simp add: sh_obj_def props_ok_sh)

lemma sh_obj_duplicate:
  assumes "obj_ok L ob"
  shows "sh_obj L e (duplicate vr w ob) = duplicate vr w ob"
  using sh_obj_ok [OF props_ok_spread_object [OF assms], of e]
        sh_obj_ok [OF props_ok_spread_array [OF assms], of e]
  by (cases vr) (simp_all add: duplicate_def sh_obj_set_proto Let_def)

lemma getValue_Facade:
  assumes "lookup h f = Some (Facade w)" and "records w \<noteq> []"
  shows "getValue (Suc n) vr h (VRef f) =
     (case forEach_record (getValue n vr) (client w) (length h) (records w) False
             (h @ [Plain (duplicate vr w (plain_at h (client w)))]) of
        (Returned mutated, h') \<Rightarrow> (Returned (if mutated then VRef (length h) else VRef (client w)), h')
      | (Threw e, h') \<Rightarrow> (Threw e, h')
      | (Diverged, h') \<Rightarrow> (Diverged, h'))"
  using assms by (simp add: isMutable_def Let_def)

lemma getValue_shift:
  assumes cl: "closed h"
  shows "val_ok (length h) v \<Longrightarrow> getValue n vr (h @ X) v = (out, H') \<Longrightarrow>
         \<exists>Y. H' = h @ X @ Y
            \<and> getValue n vr (h @ ext @ map (sh_cell (length h) (length ext)) X) v
                = (map_outcome (sh (length h) (length ext)) out,
                   h @ ext @ map (sh_cell (length h) (length ext)) (X @ Y))"
proof (induction n arbitrary: v X out H')
  case 0
  then show ?case by simp
next
  case (Suc n)
  let ?L = "length h" and ?E = "length ext"
  let ?shc = "sh_cell ?L ?E"
  let ?H2 = "h @ ext @ map ?shc X"
  have mut: "isMutable ?H2 v = isMutable (h @ X) v"
    using Suc.prems(1) isMutable_below [of h v] by simp
  show ?case
  proof (cases "isMutable (h @ X) v")
    case False
    with Suc.prems mut show ?thesis
      by (auto simp: sh_ok)
  next
    case True
    then obtain f w where v: "v = VRef f" and f: "f < ?L" and w: "lookup h f = Some (Facade w)"
      using Suc.prems(1) isMutable_below [of h v X]
      by (auto simp: isMutable_def val_ok_def split: val.splits option.splits cell.splits)
    have lw: "lookup (h @ X) f = Some (Facade w)" "lookup ?H2 f = Some (Facade w)"
      using f w lookup_below [of f h] by simp_all
    from closed_cell [OF cl f] w f have wok: "worker_ok ?L w"
      by (simp add: lookup_def)
    then have c: "client w < ?L" by (simp add: worker_ok_def)
    have cok: "obj_ok ?L (plain_at h (client w))"
      using closed_cell [OF cl c] c
      by (cases "h ! client w") (auto simp: plain_at_def lookup_def obj_ok_def empty_obj_def props_ok_def)
    have pc: "plain_at (h @ X) (client w) = plain_at h (client w)"
             "plain_at ?H2 (client w) = plain_at h (client w)"
      using c plain_at_below [of "client w" h] by simp_all
    show ?thesis
    proof (cases "records w = []")
      case True
      with Suc.prems(2) v lw mut \<open>isMutable (h @ X) v\<close> c show ?thesis
        by (auto simp: sh_def)
    next
      case False
      define result where "result = duplicate vr w (plain_at h (client w))"
      have res: "sh_obj ?L ?E result = result"
        unfolding result_def by (rule sh_obj_duplicate [OF cok])
      obtain mo H1 where loop: "forEach_record (getValue n vr) (client w) (?L + length X) (records w) False
                 (h @ (X @ [Plain result])) = (mo, H1)"
        by (cases "forEach_record (getValue n vr) (client w) (?L + length X) (records w) False
                 (h @ (X @ [Plain result]))")
      have es: "list_all (\<lambda>(k, earlier, lastOp). entry_ok ?L lastOp) (records w)"
        using wok by (simp add: worker_ok_def)
      from forEach_record_shift [of h "getValue n vr" ext "client w", OF Suc.IH c cok es loop]
      obtain X' where H1: "H1 = h @ X'"
        and loop2: "forEach_record (getValue n vr) (client w) (?L + ?E + length X) (records w) False
                  (h @ ext @ map ?shc (X @ [Plain result])) = (mo, h @ ext @ map ?shc X')"
        by blast
      have g1: "getValue (Suc n) vr (h @ X) v =
            (case mo of Returned mutated \<Rightarrow> (Returned (if mutated then VRef (?L + length X) else VRef (client w)), H1)
                  | Threw e \<Rightarrow> (Threw e, H1) | Diverged \<Rightarrow> (Diverged, H1))"
        using loop unfolding v getValue_Facade [OF lw(1) False] pc result_def
        by (simp split: outcome.splits)
      have g2: "getValue (Suc n) vr ?H2 v =
            (case mo of Returned mutated \<Rightarrow> (Returned (if mutated then VRef (?L + ?E + length X) else VRef (client w)), h @ ext @ map ?shc X')
                  | Threw e \<Rightarrow> (Threw e, h @ ext @ map ?shc X') | Diverged \<Rightarrow> (Diverged, h @ ext @ map ?shc X'))"
        using loop2 res unfolding v getValue_Facade [OF lw(2) False] pc result_def
        by (simp add: add.assoc split: outcome.splits)
      from getValue_ext [OF Suc.prems(2)] obtain Y where Y: "H' = h @ X @ Y" by auto
      with Suc.prems(2) g1 H1 have X': "X' = X @ Y"
        by (auto split: outcome.splits)
      show ?thesis
        using Suc.prems(2) g1 g2 Y X' H1 c
        by (auto simp: sh_def split: outcome.splits)
    qed
  qed
qed


subsection \<open>When the materializer returns the origin\<close>






subsection \<open>When the materializer returns\<close>

lemma forEach_record_not_Diverged:
  assumes app: "\<forall>h v out h'. rec h v = (out, h') \<longrightarrow> (\<exists>ext. h' = h @ ext)"
  shows "list_all (\<lambda>(k, earlier, (opcode, d)).
                     case d of None \<Rightarrow> True
                     | Some d' \<Rightarrow> opcode = DEL \<or> opcode = DEF
                                   \<or> (\<forall>X. fst (rec (h @ X) (value_of d')) \<noteq> Diverged)) es
         \<Longrightarrow> fst (forEach_record rec c (length h + i) es m (h @ X)) \<noteq> Diverged"
proof (induction es arbitrary: m X)
  case Nil
  then show ?case by simp
next
  case (Cons en es)
  obtain k earlier opcode d where en: "en = (k, earlier, (opcode, d))"
    by (metis prod.exhaust)
  from Cons.prems have es: "list_all (\<lambda>(k, earlier, (opcode, d)).
                     case d of None \<Rightarrow> True
                     | Some d' \<Rightarrow> opcode = DEL \<or> opcode = DEF
                                   \<or> (\<forall>X. fst (rec (h @ X) (value_of d')) \<noteq> Diverged)) es"
    by simp
  note IH = Cons.IH [OF es]
  have upd: "fst (forEach_record rec c (length h + i) es m2 ((h @ X2)[length h + i := Plain ob])) \<noteq> Diverged"
    for m2 X2 ob
    using IH [of m2 "X2[i := Plain ob]"] by (simp add: update_above)
  show ?case
  proof (cases d)
    case None
    then show ?thesis
      using upd [of True X] by (cases opcode) (auto simp: en split: sum.splits)
  next
    case (Some d')
    show ?thesis
    proof (cases "opcode = DEL \<or> opcode = DEF")
      case True
      then show ?thesis
        using upd [of True X] Some by (auto simp: en split: sum.splits)
    next
      case False
      with Cons.prems Some have nd: "fst (rec (h @ X) (value_of d')) \<noteq> Diverged"
        by (simp add: en)
      obtain o1 H1 where r: "rec (h @ X) (value_of d') = (o1, H1)"
        by (cases "rec (h @ X) (value_of d')")
      with app obtain Y where H1: "H1 = h @ X @ Y" by fastforce
      show ?thesis
        using False Some nd r upd [of _ "X @ Y"]
        by (cases opcode) (auto simp: en H1 Let_def split: sum.splits outcome.splits)
    qed
  qed
qed

lemma getValue_not_Diverged:
  assumes cl: "closed h"
  shows "val_ok (length h) v \<Longrightarrow> nesting_le n h v \<Longrightarrow> fst (getValue (Suc n) vr (h @ X) v) \<noteq> Diverged"
proof (induction n arbitrary: v X)
  case 0
  then show ?case
    using isMutable_below [of h v X] by simp
next
  case (Suc n)
  show ?case
  proof (cases "isMutable (h @ X) v")
    case False
    then show ?thesis by simp
  next
    case True
    then obtain f w where v: "v = VRef f" and f: "f < length h" and w: "lookup h f = Some (Facade w)"
      using Suc.prems(1) isMutable_below [of h v X]
      by (auto simp: isMutable_def val_ok_def split: val.splits option.splits cell.splits)
    have lw: "lookup (h @ X) f = Some (Facade w)"
      using f w lookup_below [of f h] by simp
    from closed_cell [OF cl f] w f have wok: "worker_ok (length h) w"
      by (simp add: lookup_def)
    show ?thesis
    proof (cases "records w = []")
      case True
      with lw v \<open>isMutable (h @ X) v\<close> show ?thesis by simp
    next
      case False
      have app: "\<forall>h v out h'. getValue (Suc n) vr h v = (out, h') \<longrightarrow> (\<exists>ext. h' = h @ ext)"
        using getValue_ext by blast
      have es: "list_all (\<lambda>(k, earlier, (opcode, d)).
                     case d of None \<Rightarrow> True
                     | Some d' \<Rightarrow> opcode = DEL \<or> opcode = DEF
                                   \<or> (\<forall>X. fst (getValue (Suc n) vr (h @ X) (value_of d')) \<noteq> Diverged))
                  (records w)"
        unfolding list_all_iff
      proof (intro ballI)
        fix en assume en: "en \<in> set (records w)"
        obtain k earlier opcode d where e: "en = (k, earlier, (opcode, d))"
          by (metis prod.exhaust)
        from wok en have eok: "entry_ok (length h) (opcode, d)"
          by (auto simp: worker_ok_def list_all_iff e)
        from Suc.prems(2) en w have ne: "case d of None \<Rightarrow> True
                           | Some d' \<Rightarrow> opcode = DEL \<or> opcode = DEF \<or> nesting_le n h (value_of d')"
          by (auto simp: v list_all_iff e)
        show "case en of (k, earlier, (opcode, d)) \<Rightarrow>
                     case d of None \<Rightarrow> True
                     | Some d' \<Rightarrow> opcode = DEL \<or> opcode = DEF
                                   \<or> (\<forall>X. fst (getValue (Suc n) vr (h @ X) (value_of d')) \<noteq> Diverged)"
          using ne eok Suc.IH entry_value_ok [of "length h" opcode]
          by (auto simp del: getValue.simps simp: e split: option.splits)
      qed
      from forEach_record_not_Diverged [OF app es, of "client w" "length X" False "X @ [Plain (duplicate vr w (plain_at (h @ X) (client w)))]"]
      show ?thesis
        unfolding v getValue_Facade [OF lw False]
        by (auto simp del: getValue.simps split: prod.splits outcome.splits)
    qed
  qed
qed















subsection \<open>Reading an accessor property\<close>

lemma take_update_above: "L \<le> f \<Longrightarrow> take L (h[f := c]) = take L h"
  by simp

lemma get_prefix:
  assumes "get vr h f w k = (out, h')" and "L \<le> f" and "L \<le> length h"
  shows "take L h' = take L h \<and> length h \<le> length h'"
  using assms
  by (auto simp: get_def split: variant.splits option.splits prod.splits outcome.splits if_splits
        dest!: asMutable_ext)

lemma set_key_prefix:
  assumes "set_key vr h f w k v = (out, h')" and "L \<le> f" and "L \<le> length h"
  shows "take L h' = take L h \<and> length h \<le> length h'"
  using assms
  by (auto simp: set_key_def Let_def split: prod.splits outcome.splits dest!: asMutable_ext)

lemma step_prefix:
  assumes st: "step vr h x = (out, h')"
    and tg: "case target x of None \<Rightarrow> True | Some f \<Rightarrow> L \<le> f" and L: "L \<le> length h"
  shows "take L h' = take L h \<and> length h \<le> length h'"
proof (cases x)
  case (ReadProperty f k)
  with st tg L show ?thesis
    using get_prefix [of vr h f _ k _ _ L]
    by (auto simp: on_facade_def tag_def trap_get_def split: option.splits cell.splits)
       (metis prod.collapse)+
next
  case (WriteProperty f k v)
  with st tg L show ?thesis
    using set_key_prefix [of vr h f _ k v _ _ L]
    by (auto simp: on_facade_def tag_def trap_set_snd split: option.splits cell.splits)
       (metis prod.collapse)+
next
  case (DeleteProperty f k)
  with st tg L show ?thesis
    by (auto simp: on_facade_def trap_deleteProperty_def split: option.splits cell.splits prod.splits)
next
  case (DefineProperty f k v)
  with st tg L show ?thesis
    by (auto simp: on_facade_def tag_def trap_defineProperty_def
          split: option.splits cell.splits prod.splits if_splits)
next
  case (SetAncestor f p)
  with st tg L show ?thesis
    by (auto simp: on_facade_def trap_setPrototypeOf_def split: option.splits cell.splits)
next
  case (Wrap v)
  with st L show ?thesis
    by (cases "asMutable vr h v") (auto simp: tag_def dest!: asMutable_ext)
next
  case (Unwrap n v)
  with st L show ?thesis
    by (cases "getValue n vr h v") (auto simp: tag_def dest!: getValue_ext)
qed (use st in \<open>auto simp: on_facade_def tag_def split: option.splits cell.splits\<close>)

lemma run_prefix:
  "run vr h xs = (outs, h') \<Longrightarrow> against L xs \<Longrightarrow> L \<le> length h
   \<Longrightarrow> take L h' = take L h \<and> length h \<le> length h'"
proof (induction xs arbitrary: h outs h')
  case Nil
  then show ?case by simp
next
  case (Cons x xs)
  obtain o1 h1 where s: "step vr h x = (o1, h1)" by (cases "step vr h x")
  obtain os h2 where r: "run vr h1 xs = (os, h2)" by (cases "run vr h1 xs")
  from Cons.prems(2) have tg: "case target x of None \<Rightarrow> True | Some f \<Rightarrow> L \<le> f"
    and ag: "against L xs"
    by (simp_all add: against_def)
  from step_prefix [OF s tg Cons.prems(3)] have 1: "take L h1 = take L h" "length h \<le> length h1"
    by simp_all
  with Cons.IH [OF r ag] Cons.prems(3) have "take L h2 = take L h1" "length h1 \<le> length h2"
    by simp_all
  with 1 Cons.prems(1) s r show ?case by auto
qed

lemma new_ProxyWorker_below:
  "a < length h \<Longrightarrow> new_ProxyWorker vr (h @ X) a = new_ProxyWorker vr h a"
  by (cases vr) (simp_all add: new_ProxyWorker_def plain_at_below)

text \<open>
  Claim C10. Let the store have no dangling reference, let \<open>f\<close> be a Facade
  with Worker \<open>w\<close>, and let \<open>k\<close> be an unlogged own key of the origin that is
  an accessor property whose getter yields the plain container at \<open>a\<close>. Then
  reading \<open>k\<close> returns a new Facade of \<open>a\<close> and changes nothing else in the
  store: the Worker of \<open>f\<close> has no Read entry for \<open>k\<close>. Reading \<open>k\<close> again
  returns another new Facade, at the next address. And after any session run
  against these Facades (or any Facade allocated later), the store still
  begins with the cells it had before the reads, the Worker of \<open>f\<close> is the
  same, and \<^verbatim>\<open>getValue(f)\<close> has the outcome, and allocates the containers, that
  it has before the reads, up to the renaming \<open>sh\<close> of the addresses it
  allocates itself: nothing written through those Facades is in the result.
\<close>

theorem accessor_read_leaves_no_trace:
  assumes cl: "closed h" and w: "lookup h f = Some (Facade w)" and q: "query w k = None"
    and acc: "map_of (ob_props (plain_at h (client w))) k = Some (Accessor (Some (VRef a)) s en c)"
    and plain: "\<not> isMutable h (VRef a)"
  shows "get vr h f w k = (Returned (VRef (length h)), h @ [Facade (new_ProxyWorker vr h a)])
       \<and> get vr (h @ [Facade (new_ProxyWorker vr h a)]) f w k
           = (Returned (VRef (Suc (length h))),
              h @ [Facade (new_ProxyWorker vr h a), Facade (new_ProxyWorker vr h a)])
       \<and> (\<forall>xs outs h3 n out Y.
             against (length h) xs
             \<and> run vr (h @ [Facade (new_ProxyWorker vr h a), Facade (new_ProxyWorker vr h a)]) xs
                 = (outs, h3)
             \<and> getValue n vr h (VRef f) = (out, h @ Y)
             \<longrightarrow> (\<exists>ext. h3 = h @ ext \<and> lookup h3 f = Some (Facade w)
                   \<and> getValue n vr h3 (VRef f)
                       = (map_outcome (sh (length h) (length ext)) out,
                          h3 @ map (sh_cell (length h) (length ext)) Y)))"
proof -
  let ?F = "Facade (new_ProxyWorker vr h a)"
  have f: "f < length h"
    using w by (auto simp: lookup_def split: if_splits)
  from closed_cell [OF cl f] w f have wok: "worker_ok (length h) w"
    by (simp add: lookup_def)
  then have c: "client w < length h"
    by (simp add: worker_ok_def)
  have cok: "obj_ok (length h) (plain_at h (client w))"
    using closed_cell [OF cl c] c
    by (cases "h ! client w") (auto simp: plain_at_def lookup_def obj_ok_def empty_obj_def props_ok_def)
  from props_ok_lookup [OF _ acc] cok have a: "a < length h"
    by (simp add: obj_ok_def)
  have od: "own_desc (plain_at h (client w)) k = Some (from_prop (Accessor (Some (VRef a)) s en c))"
    by (simp add: own_desc_def acc)
  have og: "obj_get (plain_at h (client w)) k = VRef a"
    by (simp add: obj_get_def acc)
  have dup: "isDuplicable (VRef a)"
    by (simp add: isDuplicable_def isPrimitive_def isFunction_def)
  have wrap1: "asMutable vr h (VRef a) = (Returned (VRef (length h)), h @ [?F])"
    using plain dup by (simp add: asMutable_def)
  have m1: "isMutable (h @ [?F]) (VRef (length h))"
    by (simp add: isMutable_def lookup_def)
  have r1: "get vr h f w k = (Returned (VRef (length h)), h @ [?F])"
    using q od og wrap1 m1 by (cases vr) (simp_all add: get_def)
  have plain2: "\<not> isMutable (h @ [?F]) (VRef a)"
    using plain a isMutable_below [of h "VRef a" "[?F]"] by simp
  have wrap2: "asMutable vr (h @ [?F]) (VRef a) = (Returned (VRef (Suc (length h))), h @ [?F, ?F])"
    using plain2 dup new_ProxyWorker_below [OF a, of vr "[?F]"] by (simp add: asMutable_def)
  have m2: "isMutable (h @ [?F, ?F]) (VRef (Suc (length h)))"
    by (simp add: isMutable_def lookup_def nth_append)
  have pc: "plain_at (h @ X) (client w) = plain_at h (client w)" for X
    using c by (rule plain_at_below)
  have r2: "get vr (h @ [?F]) f w k = (Returned (VRef (Suc (length h))), h @ [?F, ?F])"
    using q od og wrap2 m2 by (cases vr) (simp_all add: get_def pc)
  have r3: "\<exists>ext. h3 = h @ ext \<and> lookup h3 f = Some (Facade w)
                   \<and> getValue n vr h3 (VRef f)
                       = (map_outcome (sh (length h) (length ext)) out,
                          h3 @ map (sh_cell (length h) (length ext)) Y)"
    if ag: "against (length h) xs" and run: "run vr (h @ [?F, ?F]) xs = (outs, h3)"
      and g: "getValue n vr h (VRef f) = (out, h @ Y)" for xs outs h3 n out Y
  proof -
    from run_prefix [OF run ag] have "take (length h) h3 = h" and "length h \<le> length h3"
      by simp_all
    then obtain ext where h3: "h3 = h @ ext"
      by (metis append_take_drop_id)
    have l3: "lookup h3 f = Some (Facade w)"
      using w f by (simp add: h3 lookup_below)
    have vok: "val_ok (length h) (VRef f)"
      using f by simp
    from g have g0: "getValue n vr (h @ []) (VRef f) = (out, h @ Y)" by simp
    from getValue_shift [OF cl vok g0, of ext] have
      "getValue n vr h3 (VRef f)
         = (map_outcome (sh (length h) (length ext)) out,
            h3 @ map (sh_cell (length h) (length ext)) Y)"
      by (auto simp: h3)
    with h3 l3 show ?thesis by blast
  qed
  from r1 r2 r3 show ?thesis by blast
qed


theorem accessor_read_leaves_no_trace_witness:
  "get AsMutable accessor_heap 2 accessor_worker (Name ''child'')
     = (Returned (VRef 3), accessor_heap @ [child_facade])
   \<and> get AsMutable (accessor_heap @ [child_facade]) 2 accessor_worker (Name ''child'')
     = (Returned (VRef 4), accessor_heap @ [child_facade, child_facade])
   \<and> fst (getValue 2 AsMutable accessor_heap (VRef 2)) = Returned (VRef 3)
   \<and> fst (getValue 2 AsMutable
            (snd (run AsMutable (accessor_heap @ [child_facade, child_facade])
                    [WriteProperty 3 (Name ''v'') (VNum 9)])) (VRef 2))
     = Returned (VRef 5)"
proof -
  let ?h2 = "accessor_heap @ [child_facade, child_facade]"
  let ?xs = "[WriteProperty 3 (Name ''v'') (VNum 9)]"
  let ?h3 = "snd (run AsMutable ?h2 ?xs)"
  have cl: "closed accessor_heap" by code_simp
  have w: "lookup accessor_heap 2 = Some (Facade accessor_worker)" by code_simp
  have q: "query accessor_worker (Name ''child'') = None" by code_simp
  have acc: "map_of (ob_props (plain_at accessor_heap (client accessor_worker))) (Name ''child'')
               = Some (Accessor (Some (VRef 0)) False True True)" by code_simp
  have plain: "\<not> isMutable accessor_heap (VRef 0)" by code_simp
  have len: "length accessor_heap = 3" by code_simp
  note T = accessor_read_leaves_no_trace [OF cl w q acc plain, of AsMutable,
              unfolded len, folded child_facade_def]
  have ag: "against 3 ?xs" by code_simp
  have run: "run AsMutable ?h2 ?xs = (fst (run AsMutable ?h2 ?xs), ?h3)" by simp
  have out: "fst (getValue 2 AsMutable accessor_heap (VRef 2)) = Returned (VRef 3)" by code_simp
  obtain Y where g: "getValue 2 AsMutable accessor_heap (VRef 2) = (Returned (VRef 3), accessor_heap @ Y)"
    using getValue_ext [of 2 AsMutable accessor_heap "VRef 2"] out
    by (metis prod.collapse)
  from T ag run g obtain ext where h3: "?h3 = accessor_heap @ ext"
    and g3: "getValue 2 AsMutable ?h3 (VRef 2)
               = (map_outcome (sh 3 (length ext)) (Returned (VRef 3)),
                  ?h3 @ map (sh_cell 3 (length ext)) Y)"
    by blast
  have "length ?h3 = 5" by code_simp
  moreover from h3 have "length ?h3 = length accessor_heap + length ext"
    by (metis length_append)
  ultimately have "length ext = 2"
    using len by linarith
  with g3 have "fst (getValue 2 AsMutable ?h3 (VRef 2)) = Returned (VRef 5)"
    by (simp add: sh_def)
  with T out show ?thesis by simp
qed


subsection \<open>Sessions keep the store free of dangling references\<close>

lemma val_ok_mono: "val_ok L v \<Longrightarrow> L \<le> L' \<Longrightarrow> val_ok L' v"
  by (cases v) auto

lemma prop_ok_mono: "prop_ok L p \<Longrightarrow> L \<le> L' \<Longrightarrow> prop_ok L' p"
  by (cases p) (auto intro: val_ok_mono split: option.splits)

lemma props_ok_mono: "props_ok L ps \<Longrightarrow> L \<le> L' \<Longrightarrow> props_ok L' ps"
  by (auto simp: props_ok_def list_all_iff intro: prop_ok_mono)

lemma chain_ok_mono: "chain_ok L c \<Longrightarrow> L \<le> L' \<Longrightarrow> chain_ok L' c"
  by (induction c) (auto intro: props_ok_mono)

lemma obj_ok_mono: "obj_ok L ob \<Longrightarrow> L \<le> L' \<Longrightarrow> obj_ok L' ob"
  by (auto simp: obj_ok_def intro: props_ok_mono chain_ok_mono)

lemma desc_ok_mono: "desc_ok L d \<Longrightarrow> L \<le> L' \<Longrightarrow> desc_ok L' d"
  by (auto simp: desc_ok_def intro: val_ok_mono split: option.splits)

lemma entry_ok_mono: "entry_ok L e \<Longrightarrow> L \<le> L' \<Longrightarrow> entry_ok L' e"
  by (auto simp: entry_ok_def intro: desc_ok_mono split: option.splits)

lemma worker_ok_mono: "worker_ok L w \<Longrightarrow> L \<le> L' \<Longrightarrow> worker_ok L' w"
  by (auto simp: worker_ok_def list_all_iff intro: entry_ok_mono chain_ok_mono split: option.splits)

lemma cell_ok_mono: "cell_ok L c \<Longrightarrow> L \<le> L' \<Longrightarrow> cell_ok L' c"
  by (cases c) (auto intro: obj_ok_mono worker_ok_mono)

lemma closed_append:
  "closed h \<Longrightarrow> list_all (cell_ok (length h + length ext)) ext \<Longrightarrow> closed (h @ ext)"
  by (auto simp: closed_def list_all_iff intro: cell_ok_mono)

lemma closed_update: "closed h \<Longrightarrow> cell_ok (length h) c \<Longrightarrow> closed (h[f := c])"
  by (auto simp: closed_def list_all_iff dest!: set_update_subset_insert [THEN subsetD])

lemma empty_obj_ok: "obj_ok L empty_obj"
  by (simp add: obj_ok_def empty_obj_def props_ok_def)

lemma closed_plain_at: "closed h \<Longrightarrow> obj_ok (length h) (plain_at h a)"
proof (cases "a < length h")
  case True
  assume "closed h"
  from closed_cell [OF this True] True show ?thesis
    by (cases "h ! a") (simp_all add: plain_at_def lookup_def empty_obj_ok)
next
  case False
  then show ?thesis
    by (simp add: plain_at_def lookup_def empty_obj_ok)
qed

lemma closed_worker: "closed h \<Longrightarrow> lookup h f = Some (Facade w) \<Longrightarrow> worker_ok (length h) w"
  by (auto simp: closed_def list_all_length lookup_def split: if_splits)

lemma new_ProxyWorker_ok:
  "closed h \<Longrightarrow> a < length h \<Longrightarrow> worker_ok (length h) (new_ProxyWorker vr h a)"
  using closed_plain_at [of h a]
  by (cases vr) (auto simp: new_ProxyWorker_def worker_ok_def obj_ok_def split: chain.splits)

lemma asMutable_closed:
  assumes "closed h" and "val_ok (length h) v" and "asMutable vr h v = (out, h')"
  shows "closed h' \<and> (\<forall>r. out = Returned r \<longrightarrow> val_ok (length h') r)"
proof -
  have "closed (h @ [Facade (new_ProxyWorker vr h a)])" if "a < length h" for a
    using worker_ok_mono [OF new_ProxyWorker_ok [OF assms(1) that, of vr], of "Suc (length h)"]
    by (intro closed_append [OF assms(1)]) simp
  with assms show ?thesis
    by (auto simp: asMutable_def split: if_splits val.splits)
qed

lemma list_all_map_set: "list_all P m \<Longrightarrow> P (k, v) \<Longrightarrow> list_all P (map_set k v m)"
  by (induction m) auto

lemma addOp_ok: "worker_ok L w \<Longrightarrow> entry_ok L e \<Longrightarrow> worker_ok L (addOp k e w)"
  by (auto simp: worker_ok_def addOp_def Let_def intro!: list_all_map_set split: option.splits)

lemma closed_addOp:
  assumes "closed h" and "lookup h f = Some (Facade w)" and "entry_ok (length h) e"
  shows "closed (h[f := Facade (addOp k e w)])"
  using addOp_ok [OF closed_worker [OF assms(1,2)] assms(3)] assms(1)
  by (intro closed_update) simp_all

lemma closed_addOp_append:
  assumes "closed (h @ ext)" and "lookup h f = Some (Facade w)" and "entry_ok (length (h @ ext)) e"
  shows "closed ((h @ ext)[f := Facade (addOp k e w)])"
  using closed_addOp [OF assms(1) lookup_append [OF assms(2)] assms(3)] .

lemma own_desc_ok: "obj_ok L ob \<Longrightarrow> own_desc ob k = Some d \<Longrightarrow> desc_ok L d"
  using props_ok_lookup [of L "ob_props ob" k]
  by (auto simp: own_desc_def obj_ok_def desc_ok_def split: option.splits elim!: prop_ok.elims(2))

lemma query_ok: "worker_ok L w \<Longrightarrow> query w k = Some e \<Longrightarrow> entry_ok L e"
  by (auto simp: worker_ok_def query_def list_all_iff split: option.splits dest!: map_of_SomeD)

lemma get_closed:
  assumes cl: "closed h" and w: "lookup h f = Some (Facade w)" and g: "get vr h f w k = (out, h')"
  shows "closed h' \<and> (\<forall>r. out = Returned r \<longrightarrow> val_ok (length h') r)"
proof -
  note wok = closed_worker [OF cl w]
  note cok = closed_plain_at [OF cl, of "client w"]
  have logged: "val_ok (length h) (case d of None \<Rightarrow> VUndefined | Some d' \<Rightarrow> value_of d')"
    if "query w k = Some (opcode, d)" for opcode d
    using query_ok [OF wok that] by (cases d) (auto intro: entry_value_ok)
  have inherited: "val_ok (length h) (case proto w of None \<Rightarrow> VUndefined | Some ChainEnd \<Rightarrow> VNull
                               | Some (ChainObj ps rest) \<Rightarrow> chain_get (ChainObj ps rest) k)"
  proof (cases "proto w")
    case None
    then show ?thesis by simp
  next
    case (Some c)
    with wok have "chain_ok (length h) c" by (simp add: worker_ok_def)
    from chain_ok_get [OF this, of k] Some show ?thesis
      by (cases c) (simp_all del: chain_get.simps)
  qed
  have wrapped: "closed h1 \<and> val_ok (length h1) v
                 \<and> closed (h1[f := Facade (addOp k (GET, Some (d\<lparr>d_value := Some v\<rparr>)) w)])"
    if a: "asMutable vr h (obj_get (plain_at h (client w)) k) = (Returned v, h1)"
      and d: "own_desc (plain_at h (client w)) k = Some d" for v h1 d
  proof -
    from asMutable_closed [OF cl obj_ok_get [OF cok] a] have c1: "closed h1" and v: "val_ok (length h1) v"
      by simp_all
    from asMutable_ext [OF a] obtain ext where h1: "h1 = h @ ext" by blast
    have "desc_ok (length h1) (d\<lparr>d_value := Some v\<rparr>)"
      using own_desc_ok [OF cok d] v h1
      by (auto simp: desc_ok_def intro: val_ok_mono split: option.splits)
    then have "entry_ok (length h1) (GET, Some (d\<lparr>d_value := Some v\<rparr>))"
      by (simp add: entry_ok_def)
    from closed_addOp_append [OF c1 [unfolded h1] w this [unfolded h1]] c1 v show ?thesis
      by (simp add: h1)
  qed
  have failed: "closed h1"
    if "asMutable vr h (obj_get (plain_at h (client w)) k) = (out1, h1)" for out1 h1
    using asMutable_closed [OF cl obj_ok_get [OF cok] that] by simp
  show ?thesis
    using g cl logged inherited wrapped failed obj_ok_get [OF cok, of k]
    by (cases vr)
       (auto simp: get_def split: option.splits prod.splits outcome.splits if_splits)
qed


lemma apply_desc_ok:
  assumes "desc_ok L d" and "case cur of None \<Rightarrow> True | Some p \<Rightarrow> prop_ok L p"
    and "apply_desc d cur = Inr p"
  shows "prop_ok L p"
proof (cases cur)
  case None
  with assms show ?thesis
    by (cases "d_get d")
       (auto simp: apply_desc_def desc_ok_def or_else_def split: if_splits option.splits)
next
  case (Some q)
  with assms show ?thesis
    by (cases q; cases "d_get d")
       (auto simp: apply_desc_def desc_ok_def or_else_def split: if_splits option.splits)
qed

lemma props_ok_map_set: "props_ok L ps \<Longrightarrow> prop_ok L p \<Longrightarrow> props_ok L (map_set k p ps)"
  unfolding props_ok_def by (rule list_all_map_set) simp_all

lemma props_ok_filter: "props_ok L ps \<Longrightarrow> props_ok L (filter P ps)"
  by (auto simp: props_ok_def list_all_iff)

lemma define_ordinary_ok:
  assumes "obj_ok L ob" and "desc_ok L d" and "define_ordinary k d ob = Inr ob'"
  shows "obj_ok L ob'"
proof -
  have cur: "case map_of (ob_props ob) k of None \<Rightarrow> True | Some p \<Rightarrow> prop_ok L p"
    using assms(1) props_ok_lookup [of L "ob_props ob" k]
    by (auto simp: obj_ok_def split: option.splits)
  from assms(3) obtain p where p: "apply_desc d (map_of (ob_props ob) k) = Inr p"
    and ob': "ob' = ob\<lparr>ob_props := map_set k p (ob_props ob)\<rparr>"
    by (auto simp: define_ordinary_def split: sum.splits)
  from apply_desc_ok [OF assms(2) cur p] assms(1) show ?thesis
    by (simp add: ob' obj_ok_def props_ok_map_set)
qed

lemma length_desc_ok:
  "desc_ok L \<lparr>d_value = Some (VNum n), d_get = None, d_set = None,
              d_writable = None, d_enumerable = None, d_configurable = None\<rparr>"
  by (simp add: desc_ok_def)

lemma define_own_ok:
  assumes "obj_ok L ob" and "desc_ok L d" and "define_own k d ob = Inr ob'"
  shows "obj_ok L ob'"
proof -
  have dl: "desc_ok L (d\<lparr>d_value := Some (VNum n)\<rparr>)" for n
    using assms(2) by (simp add: desc_ok_def)
  have flt: "obj_ok L (ob2\<lparr>ob_props := filter P (ob_props ob2)\<rparr>)" if "obj_ok L ob2" for ob2 P
    using that by (simp add: obj_ok_def props_ok_filter)
  show ?thesis
    using assms(3) define_ordinary_ok [OF assms(1,2)] define_ordinary_ok [OF assms(1) dl]
      define_ordinary_ok [OF _ length_desc_ok] flt
    by (auto simp: define_own_def split: if_splits key.splits sum.splits) blast
qed

lemma delete_own_ok: "obj_ok L ob \<Longrightarrow> delete_own k ob = Inr ob' \<Longrightarrow> obj_ok L ob'"
  by (auto simp: delete_own_def obj_ok_def remove_key_def props_ok_filter
        split: option.splits if_splits)

lemma assign_ok:
  assumes "obj_ok L ob" and "val_ok L v" and "assign k v ob = Inr ob'"
  shows "obj_ok L ob'"
proof -
  have 1: "desc_ok L \<lparr>d_value = Some v, d_get = None, d_set = None,
                      d_writable = Some True, d_enumerable = Some True,
                      d_configurable = Some True\<rparr>"
    and 2: "desc_ok L \<lparr>d_value = Some v, d_get = None, d_set = None,
                      d_writable = None, d_enumerable = None, d_configurable = None\<rparr>"
    using assms(2) by (simp_all add: desc_ok_def)
  show ?thesis
    using assms(1,3) define_own_ok [OF assms(1) 1] define_own_ok [OF assms(1) 2]
    unfolding assign_def Let_def
    by (auto split: option.splits property.splits if_splits)
qed

lemma builtin_ok: "props_ok L (builtin base names)"
  by (auto simp: builtin_def props_ok_def list_all_iff)

lemma object_prototype_ok: "chain_ok L object_prototype"
  using builtin_ok [of L 0] by (simp add: object_prototype_def props_ok_def)

lemma array_prototype_ok: "chain_ok L array_prototype"
  using builtin_ok [of L 100] object_prototype_ok [of L]
  by (simp add: array_prototype_def props_ok_def)

lemma duplicate_ok:
  assumes "obj_ok L ob" and "worker_ok L w"
  shows "obj_ok L (duplicate vr w ob)"
proof -
  have "obj_ok L (spread_object ob)"
    using props_ok_spread_object [OF assms(1)] object_prototype_ok [of L]
    by (simp add: obj_ok_def spread_object_def)
  moreover have "obj_ok L (spread_array ob)"
    using props_ok_spread_array [OF assms(1)] array_prototype_ok [of L]
    by (simp add: obj_ok_def spread_array_def)
  moreover have "obj_ok L (set_proto (proto w) ob2)" if "obj_ok L ob2" for ob2
    using that assms(2) by (auto simp: set_proto_def obj_ok_def worker_ok_def split: option.splits)
  ultimately show ?thesis
    by (cases vr) (simp_all add: duplicate_def Let_def)
qed


lemma entries_ok_mono:
  "list_all (\<lambda>(k, earlier, lastOp). entry_ok L lastOp) es \<Longrightarrow> L \<le> L'
   \<Longrightarrow> list_all (\<lambda>(k, earlier, lastOp). entry_ok L' lastOp) es"
  by (auto simp: list_all_iff intro: entry_ok_mono)

lemma forEach_record_closed:
  assumes rec0: "\<forall>h v out h'. closed h \<and> val_ok (length h) v \<and> rec h v = (out, h')
                  \<longrightarrow> closed h' \<and> length h \<le> length h'
                      \<and> (\<forall>r. out = Returned r \<longrightarrow> val_ok (length h') r)"
  shows "closed h \<Longrightarrow> list_all (\<lambda>(k, earlier, lastOp). entry_ok (length h) lastOp) es
         \<Longrightarrow> forEach_record rec c r es m h = (out, h') \<Longrightarrow> closed h'"
proof (induction es arbitrary: m h)
  case Nil
  then show ?case by simp
next
  case (Cons en es)
  have rec: "closed h' \<and> length h \<le> length h'
                      \<and> (\<forall>r. out = Returned r \<longrightarrow> val_ok (length h') r)"
    if "closed h" "val_ok (length h) v" "rec h v = (out, h')" for h v out h'
    using rec0 that by blast
  obtain k earlier opcode d where en: "en = (k, earlier, (opcode, d))"
    by (metis prod.exhaust)
  from Cons.prems(2) have es: "list_all (\<lambda>(k, earlier, lastOp). entry_ok (length h) lastOp) es"
    and eok: "entry_ok (length h) (opcode, d)"
    by (simp_all add: en)
  have next_step: "closed h'"
    if "forEach_record rec c r es m2 (h2[r := Plain ob]) = (out, h')" "closed h2"
       "obj_ok (length h2) ob" "length h \<le> length h2" for m2 h2 ob
    using Cons.IH [of "h2[r := Plain ob]" m2] that closed_update [OF that(2), of "Plain ob" r]
      entries_ok_mono [OF es that(4)]
    by simp
  note pok = closed_plain_at [OF Cons.prems(1), of r]
  show ?case
  proof (cases "opcode = DEL")
    case True
    with Cons.prems(1,3) next_step [OF _ Cons.prems(1)] delete_own_ok [OF pok] show ?thesis
      by (auto simp: en split: sum.splits)
  next
    case notdel: False
    show ?thesis
    proof (cases d)
      case None
      with Cons.prems(1,3) notdel show ?thesis
        by (cases opcode) (auto simp: en)
    next
      case (Some d')
      with eok have dok: "desc_ok (length h) d'" and vok: "val_ok (length h) (value_of d')"
        by (auto simp: entry_ok_def intro: entry_value_ok [of _ opcode])
      show ?thesis
      proof (cases "opcode = DEF")
        case True
        with Cons.prems(1,3) Some next_step [OF _ Cons.prems(1)] define_own_ok [OF pok dok]
        show ?thesis
          by (auto simp: en split: sum.splits)
      next
        case False
        obtain o1 h1 where r1: "rec h (value_of d') = (o1, h1)"
          by (cases "rec h (value_of d')")
        from rec [OF Cons.prems(1) vok r1] have c1: "closed h1" and len: "length h \<le> length h1"
          and nv: "\<And>nv. o1 = Returned nv \<Longrightarrow> val_ok (length h1) nv"
          by simp_all
        note pok1 = closed_plain_at [OF c1, of r]
        show ?thesis
          using Cons.prems(3) notdel False Some r1 c1 next_step [OF _ c1 _ len] assign_ok [OF pok1 nv]
          by (cases opcode; cases o1) (auto simp: en Let_def split: sum.splits)
      qed
    qed
  qed
qed

lemma getValue_closed:
  "closed h \<Longrightarrow> val_ok (length h) v \<Longrightarrow> getValue n vr h v = (out, h')
   \<Longrightarrow> closed h' \<and> length h \<le> length h' \<and> (\<forall>r. out = Returned r \<longrightarrow> val_ok (length h') r)"
proof (induction n arbitrary: h v out h')
  case 0
  then show ?case by simp
next
  case (Suc n)
  from getValue_ext [OF Suc.prems(3)] have len: "length h \<le> length h'"
    by auto
  show ?case
  proof (cases "isMutable h v")
    case False
    with Suc.prems show ?thesis by auto
  next
    case True
    then obtain f w where v: "v = VRef f" and w: "lookup h f = Some (Facade w)"
      by (auto simp: isMutable_def split: val.splits option.splits cell.splits)
    note wok = closed_worker [OF Suc.prems(1) w]
    then have c: "client w < length h" by (simp add: worker_ok_def)
    show ?thesis
    proof (cases "records w = []")
      case True
      with Suc.prems w c show ?thesis by (auto simp: v isMutable_def)
    next
      case False
      let ?dup = "duplicate vr w (plain_at h (client w))"
      have cl1: "closed (h @ [Plain ?dup])"
        using duplicate_ok [OF closed_plain_at [OF Suc.prems(1)] wok, of vr "client w"]
        by (intro closed_append [OF Suc.prems(1)]) (simp add: obj_ok_mono)
      have es: "list_all (\<lambda>(k, earlier, lastOp). entry_ok (length (h @ [Plain ?dup])) lastOp) (records w)"
        using wok by (auto simp: worker_ok_def intro: entries_ok_mono)
      obtain mo h1 where loop: "forEach_record (getValue n vr) (client w) (length h) (records w) False
                 (h @ [Plain ?dup]) = (mo, h1)"
        by (cases "forEach_record (getValue n vr) (client w) (length h) (records w) False
                 (h @ [Plain ?dup])")
      have "\<forall>h v out h'. closed h \<and> val_ok (length h) v \<and> getValue n vr h v = (out, h')
                  \<longrightarrow> closed h' \<and> length h \<le> length h'
                      \<and> (\<forall>r. out = Returned r \<longrightarrow> val_ok (length h') r)"
        using Suc.IH by blast
      from forEach_record_closed [OF this cl1 es loop] have c1: "closed h1" .
      from Suc.prems(3) loop have h': "h' = h1"
        and out: "out = (case mo of Returned mutated \<Rightarrow> Returned (if mutated then VRef (length h) else VRef (client w))
                         | Threw e \<Rightarrow> Threw e | Diverged \<Rightarrow> Diverged)"
        unfolding v getValue_Facade [OF w False] by (auto split: outcome.splits)
      have app: "\<forall>h v out h'. getValue n vr h v = (out, h') \<longrightarrow> (\<exists>ext. h' = h @ ext)"
        using getValue_ext by blast
      from forEach_record_take [OF app _ loop] have "length h < length h1" by simp
      with c1 h' out c len show ?thesis
        by (auto split: outcome.splits)
    qed
  qed
qed


lemma set_key_closed:
  assumes cl: "closed h" and w: "lookup h f = Some (Facade w)" and v: "val_ok (length h) v"
    and s: "set_key vr h f w k v = (out, h')"
  shows "closed h'"
proof -
  obtain o1 h1 where a: "asMutable vr h v = (o1, h1)" by (cases "asMutable vr h v")
  from asMutable_closed [OF cl v a] have c1: "closed h1"
    and v1: "\<And>r. o1 = Returned r \<Longrightarrow> val_ok (length h1) r"
    by simp_all
  from asMutable_ext [OF a] obtain ext where h1: "h1 = h @ ext" by blast
  have "closed (h1[f := Facade (addOp k (SET, Some (full_desc v')) w)])" if "o1 = Returned v'" for v'
    using closed_addOp_append [OF c1 [unfolded h1] w, of "(SET, Some (full_desc v'))" k] v1 [OF that]
    by (simp add: h1 entry_ok_def desc_ok_def full_desc_def)
  with s a c1 show ?thesis
    by (cases o1) (auto simp: set_key_def Let_def full_desc_def)
qed

lemma step_closed:
  assumes cl: "closed h" and ok: "fop_ok (length h) x" and st: "step vr h x = (out, h')"
  shows "closed h'"
proof (cases x)
  case (ReadProperty f k)
  with st cl show ?thesis
    using get_closed [OF cl, of f _ vr k]
    by (auto simp: on_facade_def tag_def trap_get_def split: option.splits cell.splits)
       (metis prod.collapse)
next
  case (WriteProperty f k v)
  with st cl ok show ?thesis
    using set_key_closed [OF cl, of f _ v vr k]
    by (auto simp: on_facade_def tag_def trap_set_snd split: option.splits cell.splits)
       (metis prod.collapse)
next
  case (DeleteProperty f k)
  with st cl show ?thesis
    using closed_addOp [OF cl, of f _ "(DEL, None)" k]
    by (auto simp: on_facade_def trap_deleteProperty_def del_def frame_same entry_ok_def
          split: option.splits cell.splits if_splits)
next
  case (DefineProperty f k d)
  with st cl ok show ?thesis
    using closed_addOp [OF cl, of f _ "(DEF, Some d)" k]
    by (auto simp: on_facade_def tag_def trap_defineProperty_def defineProperty_def entry_ok_def
          split: option.splits cell.splits if_splits)
next
  case (SetAncestor f p)
  have "closed (h[f := Facade (w\<lparr>proto := Some p\<rparr>)])"
    if "lookup h f = Some (Facade w)" "chain_ok (length h) p" for w
    using closed_worker [OF cl that(1)] that(2)
    by (intro closed_update [OF cl]) (simp add: worker_ok_def)
  with SetAncestor st cl ok show ?thesis
    by (auto simp: on_facade_def trap_setPrototypeOf_def split: option.splits cell.splits)
next
  case (Wrap v)
  with st ok show ?thesis
    using asMutable_closed [OF cl, of v vr]
    by (cases "asMutable vr h v") (auto simp: tag_def)
next
  case (Unwrap n v)
  with st ok show ?thesis
    using getValue_closed [OF cl, of v n vr]
    by (cases "getValue n vr h v") (auto simp: tag_def)
qed (use st cl in \<open>auto simp: on_facade_def tag_def split: option.splits cell.splits\<close>)

lemma run_closed: "closed h \<Longrightarrow> run_ok vr h xs \<Longrightarrow> run vr h xs = (outs, h') \<Longrightarrow> closed h'"
proof (induction xs arbitrary: h outs h')
  case Nil
  then show ?case by simp
next
  case (Cons x xs)
  obtain o1 h1 where s: "step vr h x = (o1, h1)" by (cases "step vr h x")
  obtain os h2 where r: "run vr h1 xs = (os, h2)" by (cases "run vr h1 xs")
  from Cons.prems(2) s have ok: "fop_ok (length h) x" and rest: "run_ok vr h1 xs"
    by simp_all
  from Cons.IH [OF step_closed [OF Cons.prems(1) ok s] rest r] Cons.prems(3) s r
  show ?case by simp
qed


lemma wf_log_addOp:
  "wf_log w \<Longrightarrow> (opcode = DEL) = (d = None) \<Longrightarrow> wf_log (addOp k (opcode, d) w)"
  using distinct_addOp [of w k "(opcode, d)"]
  by (auto simp: wf_log_def addOp_def Let_def intro!: list_all_map_set split: option.splits)

lemma wf_log_new: "wf_log (new_ProxyWorker vr h a)"
  by (simp add: wf_log_def new_ProxyWorker_def)

lemma wf_logs_update:
  "wf_logs h \<Longrightarrow> (case c of Plain ob \<Rightarrow> True | Facade w \<Rightarrow> wf_log w) \<Longrightarrow> wf_logs (h[f := c])"
  by (auto simp: wf_logs_def list_all_iff dest!: set_update_subset_insert [THEN subsetD])

lemma wf_logs_lookup: "wf_logs h \<Longrightarrow> lookup h f = Some (Facade w) \<Longrightarrow> wf_log w"
  by (auto simp: wf_logs_def list_all_length lookup_def split: if_splits)

lemma asMutable_wf_logs: "wf_logs h \<Longrightarrow> asMutable vr h v = (out, h') \<Longrightarrow> wf_logs h'"
  by (auto simp: asMutable_def wf_logs_def wf_log_new split: if_splits val.splits)

lemma forEach_record_wf_logs:
  assumes rec0: "\<forall>h v out h'. wf_logs h \<and> rec h v = (out, h') \<longrightarrow> wf_logs h'"
  shows "wf_logs h \<Longrightarrow> forEach_record rec c r es m h = (out, h') \<Longrightarrow> wf_logs h'"
proof (induction es arbitrary: m h)
  case Nil
  then show ?case by simp
next
  case (Cons en es)
  have rec: "wf_logs h'" if "wf_logs h" "rec h v = (out, h')" for h v out h'
    using rec0 that by blast
  obtain k earlier opcode d where en: "en = (k, earlier, (opcode, d))"
    by (metis prod.exhaust)
  have next_step: "wf_logs h'"
    if "forEach_record rec c r es m2 (h2[r := Plain ob]) = (out, h')" "wf_logs h2" for m2 h2 ob
    using Cons.IH [of "h2[r := Plain ob]" m2] that wf_logs_update [OF that(2), of "Plain ob" r]
    by simp
  show ?case
    using Cons.prems next_step rec
    by (cases opcode)
       (auto simp: en Let_def split: sum.splits option.splits prod.splits outcome.splits)
qed

lemma getValue_wf_logs: "wf_logs h \<Longrightarrow> getValue n vr h v = (out, h') \<Longrightarrow> wf_logs h'"
proof (induction n arbitrary: h v out h')
  case 0
  then show ?case by simp
next
  case (Suc n)
  have rec: "\<forall>h v out h'. wf_logs h \<and> getValue n vr h v = (out, h') \<longrightarrow> wf_logs h'"
    using Suc.IH by blast
  have loop: "wf_logs h'"
    if "forEach_record (getValue n vr) c r es m (h @ [Plain ob]) = (out2, h')" for c r es m ob out2
    using forEach_record_wf_logs [OF rec _ that] Suc.prems(1) by (simp add: wf_logs_def)
  show ?case
    using Suc.prems loop
    by (auto simp: Let_def split: if_splits val.splits option.splits cell.splits prod.splits outcome.splits)
qed

lemma step_wf_logs:
  assumes wf: "wf_logs h" and st: "step vr h x = (out, h')"
  shows "wf_logs h'"
proof (cases x)
  case (ReadProperty f k)
  have "wf_logs h'" if w: "lookup h f = Some (Facade w)" and g: "get vr h f w k = (o1, h')" for w o1
  proof -
    have upd: "wf_logs (h1[f := Facade (addOp k (GET, Some d) w)])" if "wf_logs h1" for h1 d
      using wf_logs_update [OF that, of "Facade (addOp k (GET, Some d) w)" f]
        wf_log_addOp [OF wf_logs_lookup [OF wf w], of GET "Some d" k]
      by simp
    show ?thesis
      using g wf upd asMutable_wf_logs [OF wf]
      by (cases vr)
         (auto simp: get_def split: option.splits prod.splits outcome.splits if_splits)
  qed
  with ReadProperty st wf show ?thesis
    by (auto simp: on_facade_def tag_def trap_get_def split: option.splits cell.splits)
       (metis prod.collapse)
next
  case (WriteProperty f k v)
  have "wf_logs h'" if w: "lookup h f = Some (Facade w)" and g: "set_key vr h f w k v = (o1, h')" for w o1
  proof -
    have upd: "wf_logs (h1[f := Facade (addOp k (SET, Some d) w)])" if "wf_logs h1" for h1 d
      using wf_logs_update [OF that, of "Facade (addOp k (SET, Some d) w)" f]
        wf_log_addOp [OF wf_logs_lookup [OF wf w], of SET "Some d" k]
      by simp
    show ?thesis
      using g wf upd asMutable_wf_logs [OF wf]
      by (auto simp: set_key_def Let_def split: prod.splits outcome.splits)
  qed
  with WriteProperty st wf show ?thesis
    by (auto simp: on_facade_def tag_def trap_set_snd split: option.splits cell.splits)
       (metis prod.collapse)
next
  case (DeleteProperty f k)
  have "wf_logs (h[f := Facade (addOp k (DEL, None) w)])" if "lookup h f = Some (Facade w)" for w
    using wf_logs_update [OF wf, of "Facade (addOp k (DEL, None) w)" f]
      wf_log_addOp [OF wf_logs_lookup [OF wf that], of DEL None k]
    by simp
  with DeleteProperty st wf show ?thesis
    by (auto simp: on_facade_def trap_deleteProperty_def del_def frame_same
          split: option.splits cell.splits if_splits)
next
  case (DefineProperty f k d)
  have "wf_logs (h[f := Facade (addOp k (DEF, Some d) w)])" if "lookup h f = Some (Facade w)" for w
    using wf_logs_update [OF wf, of "Facade (addOp k (DEF, Some d) w)" f]
      wf_log_addOp [OF wf_logs_lookup [OF wf that], of DEF "Some d" k]
    by simp
  with DefineProperty st wf show ?thesis
    by (auto simp: on_facade_def tag_def trap_defineProperty_def defineProperty_def
          split: option.splits cell.splits if_splits)
next
  case (SetAncestor f p)
  have "wf_logs (h[f := Facade (w\<lparr>proto := Some p\<rparr>)])" if "lookup h f = Some (Facade w)" for w
    using wf_logs_update [OF wf, of "Facade (w\<lparr>proto := Some p\<rparr>)" f] wf_logs_lookup [OF wf that]
    by (simp add: wf_log_def)
  with SetAncestor st wf show ?thesis
    by (auto simp: on_facade_def trap_setPrototypeOf_def split: option.splits cell.splits)
next
  case (Wrap v)
  with st show ?thesis
    using asMutable_wf_logs [OF wf, of vr v]
    by (cases "asMutable vr h v") (auto simp: tag_def)
next
  case (Unwrap n v)
  with st show ?thesis
    using getValue_wf_logs [OF wf, of n vr v]
    by (cases "getValue n vr h v") (auto simp: tag_def)
qed (use st wf in \<open>auto simp: on_facade_def tag_def split: option.splits cell.splits\<close>)

text \<open>
  Both conditions on the store are invariants of sessions: a session whose
  arguments hold no dangling reference takes a store without dangling
  references and with well-formed logs to such a store.
\<close>

lemma run_invariant:
  "closed h \<Longrightarrow> wf_logs h \<Longrightarrow> run_ok vr h xs \<Longrightarrow> run vr h xs = (outs, h')
   \<Longrightarrow> closed h' \<and> wf_logs h'"
proof (induction xs arbitrary: h outs h')
  case Nil
  then show ?case by simp
next
  case (Cons x xs)
  obtain o1 h1 where s: "step vr h x = (o1, h1)" by (cases "step vr h x")
  obtain os h2 where r: "run vr h1 xs = (os, h2)" by (cases "run vr h1 xs")
  from Cons.prems(3) s have ok: "fop_ok (length h) x" and rest: "run_ok vr h1 xs"
    by simp_all
  from Cons.IH [OF step_closed [OF Cons.prems(1) ok s] step_wf_logs [OF Cons.prems(2) s] rest r]
    Cons.prems(4) s r
  show ?case by simp
qed


end
